theory Spec2Isabelle
  imports Main "HOL-Library.Word"
begin

unbundle bit_operations_syntax

section \<open>Vulkan renderer: capability negotiation, swap chain and frame loop\<close>

text \<open>
  A shallow embedding of \<^verbatim>\<open>VulkanApp.cpp\<close>, \<^verbatim>\<open>VulkanUtils.h\<close> and
  \<^verbatim>\<open>Constants.h\<close>. The Vulkan and GLFW types come from headers outside the
  repository; the parts of them the code reads are declared here with the names of
  \<^verbatim>\<open>vulkan_core.h\<close>. \<^verbatim>\<open>uint32_t\<close> is \<open>32 word\<close>; a C \<^verbatim>\<open>int\<close> that is only
  compared or cast is an \<open>int\<close>, and its cast to \<^verbatim>\<open>uint32_t\<close> is \<open>word_of_int\<close>
  (reduction modulo \<open>2 ^ 32\<close>).
\<close>

subsection \<open>Types of the Vulkan headers\<close>

type_synonym u32 = "32 word"

datatype VkPresentModeKHR =
    VK_PRESENT_MODE_IMMEDIATE_KHR
  | VK_PRESENT_MODE_MAILBOX_KHR
  | VK_PRESENT_MODE_FIFO_KHR
  | VK_PRESENT_MODE_FIFO_RELAXED_KHR
  | VK_PRESENT_MODE_SHARED_DEMAND_REFRESH_KHR
  | VK_PRESENT_MODE_SHARED_CONTINUOUS_REFRESH_KHR

datatype VkResult =
    VK_SUCCESS
  | VK_NOT_READY
  | VK_TIMEOUT
  | VK_INCOMPLETE
  | VK_SUBOPTIMAL_KHR
  | VK_ERROR_OUT_OF_HOST_MEMORY
  | VK_ERROR_OUT_OF_DEVICE_MEMORY
  | VK_ERROR_INITIALIZATION_FAILED
  | VK_ERROR_DEVICE_LOST
  | VK_ERROR_SURFACE_LOST_KHR
  | VK_ERROR_OUT_OF_DATE_KHR

datatype VkPhysicalDeviceType =
    VK_PHYSICAL_DEVICE_TYPE_OTHER
  | VK_PHYSICAL_DEVICE_TYPE_INTEGRATED_GPU
  | VK_PHYSICAL_DEVICE_TYPE_DISCRETE_GPU
  | VK_PHYSICAL_DEVICE_TYPE_VIRTUAL_GPU
  | VK_PHYSICAL_DEVICE_TYPE_CPU

text \<open>\<^verbatim>\<open>VkFormat\<close> and \<^verbatim>\<open>VkColorSpaceKHR\<close> are C enums, kept as their integer values.\<close>

record VkSurfaceFormatKHR =
  format :: int
  colorSpace :: int

record VkExtent2D =
  width :: u32
  height :: u32

record VkSurfaceCapabilitiesKHR =
  minImageCount :: u32
  maxImageCount :: u32
  currentExtent :: VkExtent2D
  minImageExtent :: VkExtent2D
  maxImageExtent :: VkExtent2D

definition UINT32_MAX :: u32 where
  "UINT32_MAX = 0xFFFFFFFF"

subsection \<open>The physical device as the driver reports it\<close>

text \<open>
  One queue family as \<^verbatim>\<open>FindQueueFamilies\<close> sees it: the \<^verbatim>\<open>queueFlags\<close> of its
  \<^verbatim>\<open>VkQueueFamilyProperties\<close>, and the \<^verbatim>\<open>VkBool32\<close> that
  \<^verbatim>\<open>vkGetPhysicalDeviceSurfaceSupportKHR\<close> writes for this family and \<^verbatim>\<open>m_surface\<close>.
\<close>

record queue_family =
  queueFlags :: u32
  surfaceSupport :: u32

text \<open>
  A \<^verbatim>\<open>VkPhysicalDevice\<close> handle stands for the answers of the driver's queries on it:
  properties, features, queue families, device extensions, and the formats and present
  modes of \<^verbatim>\<open>m_surface\<close>.
\<close>

record physical_device =
  deviceType :: VkPhysicalDeviceType
  maxImageDimension2D :: u32
  geometryShader :: u32
  queueFamilies :: "queue_family list"
  extensionNames :: "string list"
  surfaceFormats :: "VkSurfaceFormatKHR list"
  surfacePresentModes :: "VkPresentModeKHR list"

definition VK_QUEUE_GRAPHICS_BIT :: u32 where
  "VK_QUEUE_GRAPHICS_BIT = 0x00000001"

text \<open>\<^verbatim>\<open>Extension_constants::g_vDeviceExtensions\<close>, with the value of
  \<^verbatim>\<open>VK_KHR_SWAPCHAIN_EXTENSION_NAME\<close>.\<close>

definition g_vDeviceExtensions :: "string list" where
  "g_vDeviceExtensions = [''VK_KHR_swapchain'']"

subsection \<open>Errors\<close>

text \<open>
  What ends a call without its result: a C++ exception (\<^verbatim>\<open>std::runtime_error\<close> with its
  message), a failed C \<^verbatim>\<open>assert\<close>, an index outside a \<^verbatim>\<open>std::vector\<close> (undefined
  behaviour in C++, an error here), \<^verbatim>\<open>std::bad_optional_access\<close> thrown by
  \<^verbatim>\<open>value()\<close> on an empty \<^verbatim>\<open>std::optional\<close>, and a wait that never ends.
\<close>

datatype error =
    RuntimeError string
  | AssertFailed
  | OutOfRange
  | BadOptionalAccess
  | BlocksForever

text \<open>
  Modelled from the spec: \<^verbatim>\<open>DMC::UTILS::ReportError\<close>, which the \<^verbatim>\<open>ASSERT\<close> macro of
  \<^verbatim>\<open>VulkanApp.cpp\<close> calls, is declared in \<^verbatim>\<open>../Sandbox/TestBench/DMC.h\<close>, a file that is
  not among the sources. The specification makes a failed check of the one-time
  initialisation fatal, with a descriptive message: a false condition ends the call with
  the message, a true one lets it continue.
\<close>

definition ReportError :: "bool \<Rightarrow> string \<Rightarrow> error + unit" where
  "ReportError condition message = (if condition then Inr () else Inl (RuntimeError message))"

subsection \<open>Queue families\<close>

text \<open>
  \<^verbatim>\<open>QueueFamilyIndices\<close> of \<^verbatim>\<open>VulkanUtils.h\<close>. The index \<^verbatim>\<open>i\<close> is a
  \<^verbatim>\<open>uint32_t\<close> that counts the elements of a vector whose length is itself a
  \<^verbatim>\<open>uint32_t\<close>, so it cannot wrap; it is a \<open>nat\<close> here.
\<close>

record QueueFamilyIndices =
  graphicsFamily :: "nat option"
  presentFamily :: "nat option"

definition IsComplete :: "QueueFamilyIndices \<Rightarrow> bool" where
  "IsComplete indices \<longleftrightarrow> graphicsFamily indices \<noteq> None \<and> presentFamily indices \<noteq> None"

text \<open>The two tests of the loop body: \<^verbatim>\<open>if (presentSupport)\<close> and
  \<^verbatim>\<open>if (queueFamily.queueFlags & VK_QUEUE_GRAPHICS_BIT)\<close>.\<close>

definition supportsPresent :: "queue_family \<Rightarrow> bool" where
  "supportsPresent queueFamily \<longleftrightarrow> surfaceSupport queueFamily \<noteq> 0"

definition supportsGraphics :: "queue_family \<Rightarrow> bool" where
  "supportsGraphics queueFamily \<longleftrightarrow> queueFlags queueFamily AND VK_QUEUE_GRAPHICS_BIT \<noteq> 0"

text \<open>
  The range-for loop of \<^verbatim>\<open>FindQueueFamilies\<close>, from family \<open>i\<close> on. Both assignments
  overwrite what an earlier family stored. Beside the indices the loop returns the family
  indices it passed to \<^verbatim>\<open>vkGetPhysicalDeviceSurfaceSupportKHR\<close>, in order: the
  families it scanned.
\<close>

fun FindQueueFamilies_loop ::
  "queue_family list \<Rightarrow> nat \<Rightarrow> QueueFamilyIndices \<Rightarrow> QueueFamilyIndices \<times> nat list" where
  "FindQueueFamilies_loop [] i indices = (indices, [])"
| "FindQueueFamilies_loop (queueFamily # rest) i indices =
     (let indices1 = (if supportsPresent queueFamily
                      then indices\<lparr>presentFamily := Some i\<rparr> else indices);
          indices2 = (if supportsGraphics queueFamily
                      then indices1\<lparr>graphicsFamily := Some i\<rparr> else indices1)
      in if IsComplete indices2 then (indices2, [i])
         else (case FindQueueFamilies_loop rest (i + 1) indices2 of
                 (result, queried) \<Rightarrow> (result, i # queried)))"

definition FindQueueFamilies :: "physical_device \<Rightarrow> QueueFamilyIndices" where
  "FindQueueFamilies device =
     fst (FindQueueFamilies_loop (queueFamilies device) 0
            \<lparr>graphicsFamily = None, presentFamily = None\<rparr>)"

definition FindQueueFamilies_queries :: "physical_device \<Rightarrow> nat list" where
  "FindQueueFamilies_queries device =
     snd (FindQueueFamilies_loop (queueFamilies device) 0
            \<lparr>graphicsFamily = None, presentFamily = None\<rparr>)"

text \<open>
  The words of the specification and of its amendment: the first and the last position of a
  list at which a test holds, and a list of families in which both roles occur.
\<close>

fun first_index :: "('a \<Rightarrow> bool) \<Rightarrow> 'a list \<Rightarrow> nat option" where
  "first_index P [] = None"
| "first_index P (x # xs) = (if P x then Some 0 else map_option Suc (first_index P xs))"

fun last_index :: "('a \<Rightarrow> bool) \<Rightarrow> 'a list \<Rightarrow> nat option" where
  "last_index P [] = None"
| "last_index P (x # xs) =
     (case last_index P xs of
        Some j \<Rightarrow> Some (Suc j)
      | None \<Rightarrow> (if P x then Some 0 else None))"

definition both_roles :: "queue_family list \<Rightarrow> bool" where
  "both_roles families \<longleftrightarrow>
     (\<exists>q \<in> set families. supportsPresent q) \<and> (\<exists>q \<in> set families. supportsGraphics q)"

definition complete_with :: "QueueFamilyIndices \<Rightarrow> queue_family list \<Rightarrow> bool" where
  "complete_with indices families \<longleftrightarrow>
     (presentFamily indices \<noteq> None \<or> (\<exists>q \<in> set families. supportsPresent q))
     \<and> (graphicsFamily indices \<noteq> None \<or> (\<exists>q \<in> set families. supportsGraphics q))"

subsection \<open>Device selection\<close>

text \<open>
  \<^verbatim>\<open>DeviceExtensionSupport\<close>: the \<^verbatim>\<open>std::set\<close> of required names loses every
  available name; the device qualifies when nothing is left.
\<close>

definition DeviceExtensionSupport :: "physical_device \<Rightarrow> bool" where
  "DeviceExtensionSupport device =
     (fold (\<lambda>extension requiredExtensions. removeAll extension requiredExtensions)
        (extensionNames device) (remdups g_vDeviceExtensions) = [])"

definition DeviceSuitable :: "physical_device \<Rightarrow> bool" where
  "DeviceSuitable device =
     (let INDICES = FindQueueFamilies device;
          EXTENSIONS_SUPPORTED = DeviceExtensionSupport device;
          swapChainSupportAdequate =
            (if EXTENSIONS_SUPPORTED
             then surfaceFormats device \<noteq> [] \<and> surfacePresentModes device \<noteq> []
             else False)
      in IsComplete INDICES \<and> EXTENSIONS_SUPPORTED \<and> swapChainSupportAdequate)"

text \<open>\<^verbatim>\<open>RateDevice\<close>; the score is a \<^verbatim>\<open>uint32_t\<close> and its additions are those of
  \<open>32 word\<close>.\<close>

definition RateDevice :: "physical_device \<Rightarrow> u32" where
  "RateDevice device =
     (if geometryShader device = 0 \<or> \<not> DeviceSuitable device then 0
      else
        let score = 0;
            score = (if deviceType device = VK_PHYSICAL_DEVICE_TYPE_DISCRETE_GPU
                     then score + 1000 else score)
        in score + maxImageDimension2D device)"

text \<open>
  \<^verbatim>\<open>std::multimap::insert\<close>: the container is ordered by key, and a new element goes
  after the elements whose key is not greater; \<^verbatim>\<open>rbegin()\<close> is the last element.
\<close>

fun multimap_insert :: "u32 \<times> 'a \<Rightarrow> (u32 \<times> 'a) list \<Rightarrow> (u32 \<times> 'a) list" where
  "multimap_insert p [] = [p]"
| "multimap_insert p (q # qs) =
     (if fst p < fst q then p # q # qs else q # multimap_insert p qs)"

text \<open>
  \<^verbatim>\<open>PickPhysicalDevice\<close>. \<open>retCode\<close> is what \<^verbatim>\<open>vkEnumeratePhysicalDevices\<close> returns
  (in both of its calls), \<open>devices\<close> what it enumerates. The C \<^verbatim>\<open>assert\<close> is the one of a
  debug build. The result is the new \<^verbatim>\<open>m_physicalDevice\<close>.
\<close>

definition PickPhysicalDevice :: "VkResult \<Rightarrow> physical_device list \<Rightarrow> error + physical_device" where
  "PickPhysicalDevice retCode devices =
     (if retCode \<noteq> VK_SUCCESS then Inl AssertFailed
      else case ReportError (length devices \<noteq> 0) ''Failed to find GPU with Vulkan support'' of
        Inl e \<Rightarrow> Inl e
      | Inr _ \<Rightarrow>
        (case ReportError (retCode = VK_SUCCESS) ''No physical devices available!'' of
           Inl e \<Rightarrow> Inl e
         | Inr _ \<Rightarrow>
           let candidates =
                 fold (\<lambda>device candidates. multimap_insert (RateDevice device, device) candidates)
                   devices []
           in (case ReportError (0 < fst (last candidates)) ''Failed to find suitable GPU!'' of
                 Inl e \<Rightarrow> Inl e
               | Inr _ \<Rightarrow> Inr (snd (last candidates)))))"

text \<open>
  The requirements of the specification on a device: a graphics family, a family that
  presents to the surface, the required extensions, a surface format and a present mode.
  The code asks for the geometry shader feature as well: \<open>usable\<close> is the negation of the
  test under which \<^verbatim>\<open>RateDevice\<close> returns 0 at once.
\<close>

definition meets_requirements :: "physical_device \<Rightarrow> bool" where
  "meets_requirements device \<longleftrightarrow>
     (\<exists>q \<in> set (queueFamilies device). supportsGraphics q)
     \<and> (\<exists>q \<in> set (queueFamilies device). supportsPresent q)
     \<and> set g_vDeviceExtensions \<subseteq> set (extensionNames device)
     \<and> surfaceFormats device \<noteq> []
     \<and> surfacePresentModes device \<noteq> []"

definition usable :: "physical_device \<Rightarrow> bool" where
  "usable device \<longleftrightarrow> geometryShader device \<noteq> 0 \<and> DeviceSuitable device"

text \<open>The devices of the specification's scenario, and one with three queue families.\<close>

definition device_A :: physical_device where
  "device_A =
     \<lparr>deviceType = VK_PHYSICAL_DEVICE_TYPE_INTEGRATED_GPU, maxImageDimension2D = 4096,
      geometryShader = 1,
      queueFamilies = [\<lparr>queueFlags = 7, surfaceSupport = 1\<rparr>],
      extensionNames = [''VK_KHR_swapchain''],
      surfaceFormats = [\<lparr>format = 50, colorSpace = 0\<rparr>],
      surfacePresentModes = [VK_PRESENT_MODE_FIFO_KHR]\<rparr>"

definition device_B :: physical_device where
  "device_B =
     \<lparr>deviceType = VK_PHYSICAL_DEVICE_TYPE_DISCRETE_GPU, maxImageDimension2D = 2048,
      geometryShader = 1,
      queueFamilies = [\<lparr>queueFlags = 7, surfaceSupport = 1\<rparr>],
      extensionNames = [''VK_KHR_swapchain''],
      surfaceFormats = [\<lparr>format = 50, colorSpace = 0\<rparr>],
      surfacePresentModes = [VK_PRESENT_MODE_FIFO_KHR]\<rparr>"

definition device_C :: physical_device where
  "device_C =
     \<lparr>deviceType = VK_PHYSICAL_DEVICE_TYPE_DISCRETE_GPU, maxImageDimension2D = 16384,
      geometryShader = 1,
      queueFamilies = [\<lparr>queueFlags = 6, surfaceSupport = 1\<rparr>,
                       \<lparr>queueFlags = 4, surfaceSupport = 1\<rparr>,
                       \<lparr>queueFlags = 1, surfaceSupport = 0\<rparr>],
      extensionNames = [''VK_KHR_swapchain''],
      surfaceFormats = [\<lparr>format = 50, colorSpace = 0\<rparr>],
      surfacePresentModes = [VK_PRESENT_MODE_FIFO_KHR]\<rparr>"

subsection \<open>Swap chain configuration\<close>

text \<open>
  \<^verbatim>\<open>ChooseSwapPresentMode\<close>: the loop returns at the first mailbox entry; after the loop
  the default is FIFO.
\<close>

fun ChooseSwapPresentMode :: "VkPresentModeKHR list \<Rightarrow> VkPresentModeKHR" where
  "ChooseSwapPresentMode [] = VK_PRESENT_MODE_FIFO_KHR"
| "ChooseSwapPresentMode (MODE # availableModes) =
     (if MODE = VK_PRESENT_MODE_MAILBOX_KHR then MODE
      else ChooseSwapPresentMode availableModes)"

text \<open>
  \<^verbatim>\<open>std::clamp(v, lo, hi)\<close> of the C++ standard library: \<open>lo\<close> if \<open>v < lo\<close>,
  \<open>hi\<close> if \<open>hi < v\<close>, otherwise \<open>v\<close> (the comparison is the unsigned one of
  \<^verbatim>\<open>uint32_t\<close>).
\<close>

definition std_clamp :: "u32 \<Rightarrow> u32 \<Rightarrow> u32 \<Rightarrow> u32" where
  "std_clamp v lo hi = (if v < lo then lo else if hi < v then hi else v)"

text \<open>
  \<^verbatim>\<open>ChooseSwapExtent\<close>. The second argument is what \<^verbatim>\<open>glfwGetFramebufferSize\<close>
  writes into \<^verbatim>\<open>int width, height\<close>.
\<close>

definition ChooseSwapExtent :: "VkSurfaceCapabilitiesKHR \<Rightarrow> int \<times> int \<Rightarrow> VkExtent2D" where
  "ChooseSwapExtent capabilities fbsize =
     (if width (currentExtent capabilities) \<noteq> UINT32_MAX then currentExtent capabilities
      else
        let actualExtent = \<lparr>width = word_of_int (fst fbsize), height = word_of_int (snd fbsize)\<rparr>
        in \<lparr>width = std_clamp (width actualExtent)
                      (width (minImageExtent capabilities)) (width (maxImageExtent capabilities)),
            height = std_clamp (height actualExtent)
                      (height (minImageExtent capabilities)) (height (maxImageExtent capabilities))\<rparr>)"

text \<open>The literal capability struct of the specification's example, with the sentinel.\<close>

definition example_capabilities :: VkSurfaceCapabilitiesKHR where
  "example_capabilities =
     \<lparr>minImageCount = 2, maxImageCount = 3,
      currentExtent = \<lparr>width = 0xFFFFFFFF, height = 0xFFFFFFFF\<rparr>,
      minImageExtent = \<lparr>width = 1, height = 1\<rparr>,
      maxImageExtent = \<lparr>width = 4096, height = 4096\<rparr>\<rparr>"

subsection \<open>The device, the window and the members of the application\<close>

text \<open>
  Vulkan handles are opaque; here a handle is a number, and \<open>None\<close> is
  \<^verbatim>\<open>VK_NULL_HANDLE\<close> where the code passes or stores one. A fence is named by its position
  in the device's table of fences.
\<close>

type_synonym handle = nat

type_synonym fence = nat

datatype VkSharingMode = VK_SHARING_MODE_EXCLUSIVE | VK_SHARING_MODE_CONCURRENT

text \<open>
  The fields of \<^verbatim>\<open>VkSwapchainCreateInfoKHR\<close> that \<^verbatim>\<open>CreateSwapChain\<close> computes (the
  others are constants of the code).
\<close>

record VkSwapchainCreateInfoKHR =
  ci_minImageCount :: u32
  ci_imageFormat :: int
  ci_imageColorSpace :: int
  ci_imageExtent :: VkExtent2D
  ci_imageSharingMode :: VkSharingMode
  ci_queueFamilyIndices :: "nat list"
  ci_presentMode :: VkPresentModeKHR
  ci_oldSwapchain :: "handle option"

text \<open>
  The calls the application makes on Vulkan and GLFW from the main loop on, named as in the
  code, each with the arguments the properties below speak of.
  \<open>Enter_RecreateSwapChain\<close> is no call of an interface: it marks that
  \<^verbatim>\<open>RecreateSwapChain\<close> was entered. \<open>glfwGetFramebufferSize w h\<close> carries the size the
  call reported. \<open>QuerySwapChainSupport\<close>, \<open>ReadFile\<close> and \<open>RecordCommands\<close> stand for
  the queries of \<^verbatim>\<open>QuerySwapChainSupport\<close>, the file read of \<^verbatim>\<open>ReadFile\<close> and the
  \<^verbatim>\<open>vkCmd...\<close> calls that record one command buffer.
\<close>

datatype event =
    Enter_RecreateSwapChain
  | glfwGetFramebufferSize int int
  | glfwWaitEvents
  | glfwPollEvents
  | vkWaitForFences fence
  | vkAcquireNextImageKHR "handle option" handle
  | vkResetFences fence
  | vkQueueSubmit handle fence
  | vkQueuePresentKHR "handle option" nat
  | vkQueueWaitIdle
  | vkDeviceWaitIdle
  | vkDestroyFramebuffer handle
  | vkFreeCommandBuffers "handle list"
  | vkDestroyPipeline
  | vkDestroyPipelineLayout
  | vkDestroyRenderPass
  | vkDestroyImageView handle
  | vkDestroySwapchainKHR "handle option"
  | QuerySwapChainSupport
  | vkCreateSwapchainKHR VkSwapchainCreateInfoKHR
  | vkGetSwapchainImagesKHR
  | vkCreateImageView nat
  | vkCreateRenderPass
  | ReadFile string
  | vkCreateShaderModule
  | vkCreatePipelineLayout
  | vkCreateGraphicsPipelines
  | vkDestroyShaderModule
  | vkCreateFramebuffer nat
  | vkAllocateCommandBuffers nat
  | vkBeginCommandBuffer nat
  | RecordCommands nat
  | vkEndCommandBuffer nat
  | vkCreateSemaphore
  | vkCreateFence

text \<open>
  What the window system delivers while GLFW processes events: a change of the framebuffer
  size, for which GLFW runs \<^verbatim>\<open>FrameBufferResizeCallBack\<close>, or anything else.
\<close>

datatype window_event = FramebufferResized int int | OtherEvent

text \<open>
  The members of \<^verbatim>\<open>VulkanApp\<close> that the frame loop and the rebuild read or write,
  under their names, and after them the surroundings: the framebuffer size of the window as
  \<^verbatim>\<open>glfwGetFramebufferSize\<close> would report it, for every fence of the device whether it
  is signaled (\<open>dev_fences\<close>), the fences of the submissions the GPU has not finished, in
  the order of submission (\<open>dev_pending\<close>), the next unused handle, and the log
  (\<open>trace\<close>): every call made so far, each with the pending submissions and the fence
  table as they were when the call returned.
\<close>

record state =
  m_physicalDevice :: physical_device
  m_graphicsQueue :: nat
  m_presentQueue :: nat
  m_currentSwapChain :: "handle option"
  m_oldSwapChain :: "handle option"
  m_vSwapChainImages :: "handle list"
  m_swapChainImageFormat :: int
  m_swapChainExtent :: VkExtent2D
  m_vSwapChainImageViews :: "handle list"
  m_vSwapChainFramebuffers :: "handle list"
  m_vCommandBuffers :: "handle list"
  m_vImageAvailableSemaphores :: "handle list"
  m_vRenderFinishedSemaphores :: "handle list"
  m_vFences :: "fence list"
  m_vImagesInFlight :: "fence option list"
  m_currentFrame :: u32
  m_framebufferResized :: bool
  framebufferSize :: "int \<times> int"
  dev_fences :: "bool list"
  dev_pending :: "fence list"
  next_handle :: handle
  trace :: "(event \<times> fence list \<times> bool list) list"

text \<open>
  A function of the code returns normally with the new state (\<open>Inr\<close>) or ends with an error
  in the state reached so far (\<open>Inl\<close>). The GPU works on its own: a schedule says, for
  every length of the log, which fences' submissions complete before the next call is made
  (the model lets the application observe the device only at its calls).
\<close>

type_synonym outcome = "(error \<times> state) + state"

type_synonym schedule = "nat \<Rightarrow> fence list"

subsection \<open>Sequencing and the calls on the device\<close>

text \<open>
  The state an outcome ends in, the calls of a log, and the sequencing of two steps: an
  error ends the sequence.
\<close>

definition final :: "outcome \<Rightarrow> state" where
  "final r = (case r of Inl (e, s) \<Rightarrow> s | Inr s \<Rightarrow> s)"

definition events :: "state \<Rightarrow> event list" where
  "events s = map fst (trace s)"

definition andThen :: "outcome \<Rightarrow> (state \<Rightarrow> outcome) \<Rightarrow> outcome" where
  "andThen r f = (case r of Inl e \<Rightarrow> Inl e | Inr s \<Rightarrow> f s)"

text \<open>
  \<^verbatim>\<open>const uint32_t MAX_FRAMES_IN_FLIGHT = 2\<close> of \<^verbatim>\<open>Constants.h\<close>.
\<close>

definition MAX_FRAMES_IN_FLIGHT :: u32 where
  "MAX_FRAMES_IN_FLIGHT = 2"

text \<open>
  \<^verbatim>\<open>operator[]\<close> of \<^verbatim>\<open>std::vector\<close>: an index outside the vector has no element (the
  functions below end with \<open>OutOfRange\<close> there). \<open>resize n v\<close> is
  \<^verbatim>\<open>std::vector::resize(n, v)\<close>: the first \<open>n\<close> elements are kept, missing ones are \<open>v\<close>.
\<close>

definition element :: "'a list \<Rightarrow> nat \<Rightarrow> 'a option" where
  "element xs i = (if i < length xs then Some (xs ! i) else None)"

definition resize :: "nat \<Rightarrow> 'a \<Rightarrow> 'a list \<Rightarrow> 'a list" where
  "resize n v xs = take n xs @ replicate (n - length xs) v"

text \<open>
  The GPU finishes the submission that signals fence \<open>f\<close>: the fence becomes signaled and
  the submission is no longer pending. \<open>gpu_advance\<close> applies the completions the
  schedule has for this moment, \<open>gpu_drain\<close> completes everything that is pending.
\<close>

definition gpu_finish :: "fence \<Rightarrow> state \<Rightarrow> state" where
  "gpu_finish f s =
     (if f \<in> set (dev_pending s)
      then s\<lparr>dev_fences := (dev_fences s)[f := True], dev_pending := remove1 f (dev_pending s)\<rparr>
      else s)"

definition gpu_advance :: "schedule \<Rightarrow> state \<Rightarrow> state" where
  "gpu_advance sched s = fold gpu_finish (sched (length (trace s))) s"

definition gpu_drain :: "state \<Rightarrow> state" where
  "gpu_drain s =
     s\<lparr>dev_fences := fold (\<lambda>f fs. fs[f := True]) (dev_pending s) (dev_fences s),
       dev_pending := []\<rparr>"

text \<open>
  A call is logged with the state of the device after it; before every call the GPU may
  have progressed. \<open>run_calls\<close> makes a list of calls in order, each with the test the code
  applies to its result and the error it throws when the test fails; the first failure
  ends the run.
\<close>

definition log_call :: "event \<Rightarrow> state \<Rightarrow> state" where
  "log_call ev s = s\<lparr>trace := trace s @ [(ev, dev_pending s, dev_fences s)]\<rparr>"

definition call :: "schedule \<Rightarrow> event \<Rightarrow> state \<Rightarrow> state" where
  "call sched ev s = log_call ev (gpu_advance sched s)"

fun run_calls :: "schedule \<Rightarrow> (event \<times> bool \<times> error) list \<Rightarrow> state \<Rightarrow> outcome" where
  "run_calls sched [] s = Inr s"
| "run_calls sched ((ev, ok, err) # rest) s =
     (let s1 = call sched ev s
      in if \<not> ok then Inl (err, s1) else run_calls sched rest s1)"

text \<open>
  \<^verbatim>\<open>vkWaitForFences(m_device, 1, &fence, VK_TRUE, UINT64_MAX)\<close> returns when the fence is
  signaled: at once if it is, after the GPU has finished the pending submission that
  signals it otherwise, and never if there is no such submission.
  \<^verbatim>\<open>vkResetFences\<close> makes the fence unsignaled. A successful \<^verbatim>\<open>vkQueueSubmit\<close> with a
  fence adds a pending submission that will signal the fence. \<^verbatim>\<open>vkDeviceWaitIdle\<close>
  returns when nothing is pending; \<^verbatim>\<open>vkQueueWaitIdle\<close> likewise when the queue is the
  one the submissions went to (\<open>m_graphicsQueue\<close>), and at once for another queue.
\<close>

definition wait_for_fences :: "schedule \<Rightarrow> fence \<Rightarrow> state \<Rightarrow> outcome" where
  "wait_for_fences sched f s =
     (let s1 = gpu_advance sched s
      in if f < length (dev_fences s1) \<and> dev_fences s1 ! f
         then Inr (log_call (vkWaitForFences f) s1)
         else if f \<in> set (dev_pending s1)
         then Inr (log_call (vkWaitForFences f) (gpu_finish f s1))
         else Inl (BlocksForever, log_call (vkWaitForFences f) s1))"

definition reset_fences :: "schedule \<Rightarrow> fence \<Rightarrow> state \<Rightarrow> state" where
  "reset_fences sched f s =
     (let s1 = gpu_advance sched s
      in log_call (vkResetFences f) (s1\<lparr>dev_fences := (dev_fences s1)[f := False]\<rparr>))"

definition queue_submit :: "schedule \<Rightarrow> VkResult \<Rightarrow> handle \<Rightarrow> fence \<Rightarrow> state \<Rightarrow> state" where
  "queue_submit sched result commandBuffer f s =
     (let s1 = gpu_advance sched s
      in log_call (vkQueueSubmit commandBuffer f)
           (if result = VK_SUCCESS then s1\<lparr>dev_pending := dev_pending s1 @ [f]\<rparr> else s1))"

definition device_wait_idle :: "schedule \<Rightarrow> state \<Rightarrow> state" where
  "device_wait_idle sched s = log_call vkDeviceWaitIdle (gpu_drain (gpu_advance sched s))"

definition queue_wait_idle :: "schedule \<Rightarrow> nat \<Rightarrow> state \<Rightarrow> state" where
  "queue_wait_idle sched queue s =
     (let s1 = gpu_advance sched s
      in log_call vkQueueWaitIdle (if queue = m_graphicsQueue s1 then gpu_drain s1 else s1))"

text \<open>
  \<^verbatim>\<open>FrameBufferResizeCallBack\<close> sets \<open>m_framebufferResized\<close>; the window has the new size.
  \<^verbatim>\<open>glfwPollEvents\<close> (and \<^verbatim>\<open>glfwWaitEvents\<close>, below) processes the events that have
  arrived. \<^verbatim>\<open>glfwGetFramebufferSize\<close> reports the size of the window.
\<close>

fun window_event_effect :: "window_event \<Rightarrow> state \<Rightarrow> state" where
  "window_event_effect (FramebufferResized w h) s =
     s\<lparr>framebufferSize := (w, h), m_framebufferResized := True\<rparr>"
| "window_event_effect OtherEvent s = s"

definition poll_events :: "schedule \<Rightarrow> window_event list \<Rightarrow> state \<Rightarrow> state" where
  "poll_events sched evs s = fold window_event_effect evs (call sched glfwPollEvents s)"

definition get_framebuffer_size :: "schedule \<Rightarrow> state \<Rightarrow> state" where
  "get_framebuffer_size sched s =
     call sched (glfwGetFramebufferSize (fst (framebufferSize s)) (snd (framebufferSize s))) s"

subsection \<open>What the environment answers\<close>

text \<open>
  What the surroundings answer during one call of \<^verbatim>\<open>RecreateSwapChain\<close>: the window
  events that each \<^verbatim>\<open>glfwWaitEvents\<close> in turn returns with (when the list is used up the
  next \<^verbatim>\<open>glfwWaitEvents\<close> never returns), the surface capabilities, the number of images
  of the new chain, and the result of every call that can fail. During one iteration of
  the main loop: the window events \<^verbatim>\<open>glfwPollEvents\<close> processes, the results of
  acquisition, submission and presentation, the acquired image index, and the answers for
  a rebuild should the iteration make one.
\<close>

record rebuild_answers =
  waitEvents :: "window_event list"
  capabilities :: VkSurfaceCapabilitiesKHR
  createSwapchainResult :: VkResult
  swapchainImageCount :: nat
  createImageViewResult :: "nat \<Rightarrow> VkResult"
  createRenderPassResult :: VkResult
  vertShaderReadable :: bool
  fragShaderReadable :: bool
  createVertShaderModuleResult :: VkResult
  createFragShaderModuleResult :: VkResult
  createPipelineLayoutResult :: VkResult
  createGraphicsPipelinesResult :: VkResult
  createFramebufferResult :: "nat \<Rightarrow> VkResult"
  allocateCommandBuffersResult :: VkResult
  beginCommandBufferResult :: "nat \<Rightarrow> VkResult"
  endCommandBufferResult :: "nat \<Rightarrow> VkResult"

record frame_answers =
  pollEvents :: "window_event list"
  acquireResult :: VkResult
  acquiredImageIndex :: nat
  submitResult :: VkResult
  presentResult :: VkResult
  rebuild :: rebuild_answers

text \<open>
  \<^verbatim>\<open>ChooseSwapSurfaceFormat\<close> (lines 1060-1075): the first format that is
  \<^verbatim>\<open>VK_FORMAT_B8G8R8A8_SRGB\<close> with \<^verbatim>\<open>VK_COLOR_SPACE_SRGB_NONLINEAR_KHR\<close>, else
  \<^verbatim>\<open>availableFormats[0]\<close>.
\<close>

definition VK_FORMAT_B8G8R8A8_SRGB :: int where
  "VK_FORMAT_B8G8R8A8_SRGB = 50"

definition VK_COLOR_SPACE_SRGB_NONLINEAR_KHR :: int where
  "VK_COLOR_SPACE_SRGB_NONLINEAR_KHR = 0"

definition ChooseSwapSurfaceFormat :: "VkSurfaceFormatKHR list \<Rightarrow> VkSurfaceFormatKHR option" where
  "ChooseSwapSurfaceFormat availableFormats =
     (case find (\<lambda>AVAILABLE_FORMAT.
                   format AVAILABLE_FORMAT = VK_FORMAT_B8G8R8A8_SRGB
                   \<and> colorSpace AVAILABLE_FORMAT = VK_COLOR_SPACE_SRGB_NONLINEAR_KHR)
             availableFormats of
        Some AVAILABLE_FORMAT \<Rightarrow> Some AVAILABLE_FORMAT
      | None \<Rightarrow> element availableFormats 0)"

subsection \<open>Classes of calls\<close>

text \<open>
  The calls by their role: polling the window, tearing down (\<^verbatim>\<open>CleanupSwapChain\<close>),
  constructing (the six \<^verbatim>\<open>Create...\<close> functions of the rebuild), and the calls of
  \<^verbatim>\<open>DrawFrame\<close> itself. \<open>creation_event old\<close> holds of what the construction may log
  when \<open>m_oldSwapChain\<close> is \<open>old\<close>; \<open>recreate_event old\<close> of what a whole
  \<^verbatim>\<open>RecreateSwapChain\<close> may log.
\<close>

definition is_poll :: "event \<Rightarrow> bool" where
  "is_poll e = (case e of glfwGetFramebufferSize w h \<Rightarrow> True | glfwWaitEvents \<Rightarrow> True | _ \<Rightarrow> False)"

definition is_teardown :: "event \<Rightarrow> bool" where
  "is_teardown e =
     (case e of
        vkDestroyFramebuffer h \<Rightarrow> True
      | vkFreeCommandBuffers hs \<Rightarrow> True
      | vkDestroyPipeline \<Rightarrow> True
      | vkDestroyPipelineLayout \<Rightarrow> True
      | vkDestroyRenderPass \<Rightarrow> True
      | vkDestroyImageView h \<Rightarrow> True
      | vkDestroySwapchainKHR c \<Rightarrow> True
      | _ \<Rightarrow> False)"

definition is_construction :: "event \<Rightarrow> bool" where
  "is_construction e =
     (case e of
        QuerySwapChainSupport \<Rightarrow> True
      | vkCreateSwapchainKHR info \<Rightarrow> True
      | vkGetSwapchainImagesKHR \<Rightarrow> True
      | vkCreateImageView i \<Rightarrow> True
      | vkCreateRenderPass \<Rightarrow> True
      | ReadFile name \<Rightarrow> True
      | vkCreateShaderModule \<Rightarrow> True
      | vkCreatePipelineLayout \<Rightarrow> True
      | vkCreateGraphicsPipelines \<Rightarrow> True
      | vkDestroyShaderModule \<Rightarrow> True
      | vkCreateFramebuffer i \<Rightarrow> True
      | vkAllocateCommandBuffers n \<Rightarrow> True
      | vkBeginCommandBuffer i \<Rightarrow> True
      | RecordCommands i \<Rightarrow> True
      | vkEndCommandBuffer i \<Rightarrow> True
      | _ \<Rightarrow> False)"

definition is_frame_call :: "event \<Rightarrow> bool" where
  "is_frame_call e =
     (case e of
        vkWaitForFences f \<Rightarrow> True
      | vkAcquireNextImageKHR c sem \<Rightarrow> True
      | vkResetFences f \<Rightarrow> True
      | vkQueueSubmit cb f \<Rightarrow> True
      | vkQueuePresentKHR c i \<Rightarrow> True
      | vkQueueWaitIdle \<Rightarrow> True
      | _ \<Rightarrow> False)"

definition creation_event :: "handle option \<Rightarrow> event \<Rightarrow> bool" where
  "creation_event old e =
     (case e of
        vkCreateSwapchainKHR info \<Rightarrow> ci_oldSwapchain info = old
      | glfwGetFramebufferSize w h \<Rightarrow> True
      | _ \<Rightarrow> is_construction e)"

definition rebuild_event :: "handle option \<Rightarrow> event \<Rightarrow> bool" where
  "rebuild_event old e \<longleftrightarrow> e = vkDeviceWaitIdle \<or> is_teardown e \<or> creation_event old e"

definition recreate_event :: "handle option \<Rightarrow> event \<Rightarrow> bool" where
  "recreate_event old e \<longleftrightarrow> e = Enter_RecreateSwapChain \<or> is_poll e \<or> rebuild_event old e"

text \<open>
  The calls an outcome \<open>r\<close> has added to the log of the state \<open>s\<close> it started from.
  \<open>reset_then_submit\<close>: every \<^verbatim>\<open>vkResetFences\<close> in a list of calls is followed at once
  by a \<^verbatim>\<open>vkQueueSubmit\<close> with the same fence.
\<close>

definition new_events :: "state \<Rightarrow> outcome \<Rightarrow> event list" where
  "new_events s r = drop (length (events s)) (events (final r))"

fun reset_then_submit :: "event list \<Rightarrow> bool" where
  "reset_then_submit [] = True"
| "reset_then_submit (e # es) =
     ((case e of
         vkResetFences g \<Rightarrow> (case es of vkQueueSubmit cb g' # rest \<Rightarrow> g' = g | _ \<Rightarrow> False)
       | _ \<Rightarrow> True)
      \<and> reset_then_submit es)"

definition is_present :: "event \<Rightarrow> bool" where
  "is_present e = (case e of vkQueuePresentKHR c i \<Rightarrow> True | _ \<Rightarrow> False)"

definition is_submit :: "event \<Rightarrow> bool" where
  "is_submit e = (case e of vkQueueSubmit cb f \<Rightarrow> True | _ \<Rightarrow> False)"

definition is_acquire :: "event \<Rightarrow> bool" where
  "is_acquire e = (case e of vkAcquireNextImageKHR c sem \<Rightarrow> True | _ \<Rightarrow> False)"

text \<open>
  The calls of \<^verbatim>\<open>CleanupSwapChain\<close> in a state, in order.
\<close>

definition cleanup_events :: "state \<Rightarrow> event list" where
  "cleanup_events s =
     map vkDestroyFramebuffer (m_vSwapChainFramebuffers s)
     @ [vkFreeCommandBuffers (m_vCommandBuffers s), vkDestroyPipeline, vkDestroyPipelineLayout,
        vkDestroyRenderPass]
     @ map vkDestroyImageView (m_vSwapChainImageViews s)
     @ [vkDestroySwapchainKHR (m_oldSwapChain s), vkDestroySwapchainKHR (m_currentSwapChain s)]"

subsection \<open>Creation and destruction of the swap chain objects\<close>

text \<open>
  \<open>n\<close> handles not used so far.
\<close>

definition fresh_handles :: "nat \<Rightarrow> state \<Rightarrow> handle list" where
  "fresh_handles n s = map (\<lambda>i. next_handle s + i) [0 ..< n]"

text \<open>
  \<^verbatim>\<open>CreateSwapChain\<close> (lines 270-332). \<^verbatim>\<open>ChooseSwapExtent\<close> reads the framebuffer size
  only under the sentinel. \<open>value()\<close> on an unresolved queue family throws. The create
  info takes \<open>m_oldSwapChain\<close> as \<^verbatim>\<open>oldSwapchain\<close>; on success
  \<open>m_currentSwapChain\<close> is the new chain and \<open>m_vSwapChainImages\<close> holds as many images as
  the chain reports.
\<close>

definition CreateSwapChain :: "schedule \<Rightarrow> rebuild_answers \<Rightarrow> state \<Rightarrow> outcome" where
  "CreateSwapChain sched a s =
     (let s1 = call sched QuerySwapChainSupport s;
          caps = capabilities a
      in case ChooseSwapSurfaceFormat (surfaceFormats (m_physicalDevice s1)) of
           None \<Rightarrow> Inl (OutOfRange, s1)
         | Some surfaceFormat \<Rightarrow>
           let presentMode = ChooseSwapPresentMode (surfacePresentModes (m_physicalDevice s1));
               s2 = (if width (currentExtent caps) \<noteq> UINT32_MAX then s1
                     else get_framebuffer_size sched s1);
               extent = ChooseSwapExtent caps (framebufferSize s2);
               imageCount = minImageCount caps + 1;
               imageCount = (if maxImageCount caps > 0 \<and> imageCount > maxImageCount caps
                             then maxImageCount caps else imageCount);
               indices = FindQueueFamilies (m_physicalDevice s2)
           in case (graphicsFamily indices, presentFamily indices) of
                (Some g, Some p) \<Rightarrow>
                  let createInfo =
                        \<lparr>ci_minImageCount = imageCount,
                         ci_imageFormat = format surfaceFormat,
                         ci_imageColorSpace = colorSpace surfaceFormat,
                         ci_imageExtent = extent,
                         ci_imageSharingMode =
                           (if g \<noteq> p then VK_SHARING_MODE_CONCURRENT else VK_SHARING_MODE_EXCLUSIVE),
                         ci_queueFamilyIndices = (if g \<noteq> p then [g, p] else []),
                         ci_presentMode = presentMode,
                         ci_oldSwapchain = m_oldSwapChain s2\<rparr>;
                      s3 = call sched (vkCreateSwapchainKHR createInfo) s2
                  in (case ReportError (createSwapchainResult a = VK_SUCCESS)
                             ''Failed to create swap chain!'' of
                        Inl e \<Rightarrow> Inl (e, s3)
                      | Inr _ \<Rightarrow>
                        let s4 = s3\<lparr>m_currentSwapChain := Some (next_handle s3),
                                    next_handle := next_handle s3 + 1\<rparr>;
                            s5 = call sched vkGetSwapchainImagesKHR s4;
                            s6 = call sched vkGetSwapchainImagesKHR s5
                        in Inr (s6\<lparr>m_vSwapChainImages := fresh_handles (swapchainImageCount a) s6,
                                   next_handle := next_handle s6 + swapchainImageCount a,
                                   m_swapChainImageFormat := format surfaceFormat,
                                   m_swapChainExtent := extent\<rparr>))
              | _ \<Rightarrow> Inl (BadOptionalAccess, s2))"

text \<open>
  \<^verbatim>\<open>CreateImageViews\<close> (lines 334-360), \<^verbatim>\<open>CreateRenderPass\<close> (362-405),
  \<^verbatim>\<open>CreateGraphicsPipeline\<close> (407-557), \<^verbatim>\<open>CreateFramebuffers\<close> (559-585) and
  \<^verbatim>\<open>CreateCommandBuffers\<close> (602-651): each vector is resized to the length of the one
  before it, then the calls are made in order, each failure throwing its
  \<^verbatim>\<open>std::runtime_error\<close>.
\<close>

definition CreateImageViews :: "schedule \<Rightarrow> rebuild_answers \<Rightarrow> state \<Rightarrow> outcome" where
  "CreateImageViews sched a s =
     (let n = length (m_vSwapChainImages s);
          s1 = s\<lparr>m_vSwapChainImageViews := fresh_handles n s, next_handle := next_handle s + n\<rparr>
      in run_calls sched
           (map (\<lambda>i. (vkCreateImageView i, createImageViewResult a i = VK_SUCCESS,
                       RuntimeError ''Failed to create image views!'')) [0 ..< n]) s1)"

definition CreateRenderPass :: "schedule \<Rightarrow> rebuild_answers \<Rightarrow> state \<Rightarrow> outcome" where
  "CreateRenderPass sched a s =
     run_calls sched
       [(vkCreateRenderPass, createRenderPassResult a = VK_SUCCESS,
         RuntimeError ''Failed to create render pass!'')] s"

definition CreateGraphicsPipeline :: "schedule \<Rightarrow> rebuild_answers \<Rightarrow> state \<Rightarrow> outcome" where
  "CreateGraphicsPipeline sched a s =
     andThen
       (run_calls sched
          [(ReadFile ''shaders/vert.spv'', vertShaderReadable a, RuntimeError ''Failed to open file!''),
           (ReadFile ''shaders/frag.spv'', fragShaderReadable a, RuntimeError ''Failed to open file!''),
           (vkCreateShaderModule, createVertShaderModuleResult a = VK_SUCCESS,
            RuntimeError ''Failed to create shader module!''),
           (vkCreateShaderModule, createFragShaderModuleResult a = VK_SUCCESS,
            RuntimeError ''Failed to create shader module!''),
           (vkCreatePipelineLayout, createPipelineLayoutResult a = VK_SUCCESS,
            RuntimeError ''Failed to create pipeline layout!''),
           (vkCreateGraphicsPipelines, createGraphicsPipelinesResult a = VK_SUCCESS,
            RuntimeError ''Failed to create graphics pipeline!'')] s)
       (\<lambda>s1. Inr (call sched vkDestroyShaderModule (call sched vkDestroyShaderModule s1)))"

definition CreateFramebuffers :: "schedule \<Rightarrow> rebuild_answers \<Rightarrow> state \<Rightarrow> outcome" where
  "CreateFramebuffers sched a s =
     (let n = length (m_vSwapChainImageViews s);
          s1 = s\<lparr>m_vSwapChainFramebuffers := fresh_handles n s, next_handle := next_handle s + n\<rparr>
      in run_calls sched
           (map (\<lambda>i. (vkCreateFramebuffer i, createFramebufferResult a i = VK_SUCCESS,
                       RuntimeError ''Failed to create framebuffer!'')) [0 ..< n]) s1)"

definition CreateCommandBuffers :: "schedule \<Rightarrow> rebuild_answers \<Rightarrow> state \<Rightarrow> outcome" where
  "CreateCommandBuffers sched a s =
     (let n = length (m_vSwapChainFramebuffers s);
          s1 = s\<lparr>m_vCommandBuffers := fresh_handles n s, next_handle := next_handle s + n\<rparr>
      in run_calls sched
           ((vkAllocateCommandBuffers n, allocateCommandBuffersResult a = VK_SUCCESS,
             RuntimeError ''Failed to allocate command buffers!'')
            # concat (map (\<lambda>i.
                 [(vkBeginCommandBuffer i, beginCommandBufferResult a i = VK_SUCCESS,
                   RuntimeError ''Failed to begin recording command buffer!''),
                  (RecordCommands i, True, RuntimeError ''''),
                  (vkEndCommandBuffer i, endCommandBufferResult a i = VK_SUCCESS,
                   RuntimeError ''Failed to record command buffer!'')]) [0 ..< n])) s1)"

text \<open>
  \<^verbatim>\<open>CreateSyncObjects\<close> (lines 653-679): \<open>MAX_FRAMES_IN_FLIGHT\<close> semaphores of each
  kind and as many fences, created signaled;
  \<^verbatim>\<open>m_vImagesInFlight.resize(m_vSwapChainImageViews.size(), VK_NULL_HANDLE)\<close>. The three
  creations of a slot are joined by \<^verbatim>\<open>||\<close>, so the first failure skips the rest.
\<close>

definition CreateSyncObjects :: "schedule \<Rightarrow> (nat \<Rightarrow> VkResult \<times> VkResult \<times> VkResult) \<Rightarrow> state \<Rightarrow> outcome" where
  "CreateSyncObjects sched results s =
     (let n = unat MAX_FRAMES_IN_FLIGHT;
          s1 = s\<lparr>m_vImageAvailableSemaphores := fresh_handles n s,
                 m_vRenderFinishedSemaphores := map (\<lambda>h. h + n) (fresh_handles n s),
                 next_handle := next_handle s + 2 * n,
                 m_vFences := map (\<lambda>i. length (dev_fences s) + i) [0 ..< n],
                 dev_fences := dev_fences s @ replicate n True,
                 m_vImagesInFlight :=
                   resize (length (m_vSwapChainImageViews s)) None (m_vImagesInFlight s)\<rparr>
      in run_calls sched
           (concat (map (\<lambda>i.
              [(vkCreateSemaphore, fst (results i) = VK_SUCCESS,
                RuntimeError ''Failed to create semaphores for a frame!''),
               (vkCreateSemaphore, fst (snd (results i)) = VK_SUCCESS,
                RuntimeError ''Failed to create semaphores for a frame!''),
               (vkCreateFence, snd (snd (results i)) = VK_SUCCESS,
                RuntimeError ''Failed to create semaphores for a frame!'')]) [0 ..< n])) s1)"

text \<open>
  \<^verbatim>\<open>CleanupSwapChain\<close> (lines 800-826); its last two calls destroy \<open>m_oldSwapChain\<close>
  and \<open>m_currentSwapChain\<close>.
\<close>

definition CleanupSwapChain :: "schedule \<Rightarrow> state \<Rightarrow> state" where
  "CleanupSwapChain sched s =
     (let s1 = fold (\<lambda>framebuffer. call sched (vkDestroyFramebuffer framebuffer))
                 (m_vSwapChainFramebuffers s) s;
          s2 = call sched (vkFreeCommandBuffers (m_vCommandBuffers s1)) s1;
          s3 = call sched vkDestroyPipeline s2;
          s4 = call sched vkDestroyPipelineLayout s3;
          s5 = call sched vkDestroyRenderPass s4;
          s6 = fold (\<lambda>view. call sched (vkDestroyImageView view)) (m_vSwapChainImageViews s5) s5;
          s7 = call sched (vkDestroySwapchainKHR (m_oldSwapChain s6)) s6
      in call sched (vkDestroySwapchainKHR (m_currentSwapChain s7)) s7)"

subsection \<open>The rebuild\<close>

text \<open>
  The loop of \<^verbatim>\<open>RecreateSwapChain\<close> (lines 779-784) with the size \<open>w\<close>, \<open>h\<close> read last:
  while a dimension is zero the size is read again and \<^verbatim>\<open>glfwWaitEvents\<close> is called,
  which returns after the next window event; without one it never returns.
\<close>

fun minimised_loop :: "schedule \<Rightarrow> window_event list \<Rightarrow> int \<Rightarrow> int \<Rightarrow> state \<Rightarrow> outcome" where
  "minimised_loop sched evs w h s =
     (if w = 0 \<or> h = 0
      then let s1 = get_framebuffer_size sched s
           in (case evs of
                 [] \<Rightarrow> Inl (BlocksForever, call sched glfwWaitEvents s1)
               | ev # rest \<Rightarrow>
                   minimised_loop sched rest (fst (framebufferSize s1)) (snd (framebufferSize s1))
                     (window_event_effect ev (call sched glfwWaitEvents s1)))
      else Inr s)"

text \<open>
  \<^verbatim>\<open>RecreateSwapChain\<close> (lines 775-798) after its loop: \<^verbatim>\<open>vkDeviceWaitIdle\<close>,
  \<^verbatim>\<open>CleanupSwapChain\<close>, then the six creations. And the whole function: the size is read
  once before the loop.
\<close>

definition RebuildSwapChain :: "schedule \<Rightarrow> rebuild_answers \<Rightarrow> state \<Rightarrow> outcome" where
  "RebuildSwapChain sched a s =
     (let s1 = device_wait_idle sched s;
          s2 = CleanupSwapChain sched s1
      in andThen (CreateSwapChain sched a s2) (\<lambda>s3.
         andThen (CreateImageViews sched a s3) (\<lambda>s4.
         andThen (CreateRenderPass sched a s4) (\<lambda>s5.
         andThen (CreateGraphicsPipeline sched a s5) (\<lambda>s6.
         andThen (CreateFramebuffers sched a s6) (\<lambda>s7.
         CreateCommandBuffers sched a s7))))))"

definition RecreateSwapChain :: "schedule \<Rightarrow> rebuild_answers \<Rightarrow> state \<Rightarrow> outcome" where
  "RecreateSwapChain sched a s =
     (let s0 = call sched Enter_RecreateSwapChain s;
          s1 = get_framebuffer_size sched s0
      in andThen
           (minimised_loop sched (waitEvents a)
              (fst (framebufferSize s1)) (snd (framebufferSize s1)) s1)
           (RebuildSwapChain sched a))"

subsection \<open>The frame loop\<close>

text \<open>
  \<^verbatim>\<open>DrawFrame\<close> (lines 681-771), statement by statement. On
  \<^verbatim>\<open>VK_ERROR_OUT_OF_DATE_KHR\<close> from the acquisition it returns what
  \<^verbatim>\<open>RecreateSwapChain\<close> returns. The image's fence is waited for before the image is
  marked and again before the presentation; \<^verbatim>\<open>&m_vCommandBuffers[imageIndex]\<close> is taken
  before the fence is reset.
\<close>

definition DrawFrame :: "schedule \<Rightarrow> frame_answers \<Rightarrow> state \<Rightarrow> outcome" where
  "DrawFrame sched a s =
     (case element (m_vFences s) (unat (m_currentFrame s)) of
        None \<Rightarrow> Inl (OutOfRange, s)
      | Some frameFence \<Rightarrow>
        andThen (wait_for_fences sched frameFence s) (\<lambda>s1.
        case element (m_vImageAvailableSemaphores s1) (unat (m_currentFrame s1)) of
          None \<Rightarrow> Inl (OutOfRange, s1)
        | Some semaphore \<Rightarrow>
          let s2 = call sched (vkAcquireNextImageKHR (m_currentSwapChain s1) semaphore) s1;
              result = acquireResult a;
              imageIndex = acquiredImageIndex a
          in if result = VK_ERROR_OUT_OF_DATE_KHR
             then RecreateSwapChain sched (rebuild a) s2
             else if result \<noteq> VK_SUCCESS \<and> result \<noteq> VK_SUBOPTIMAL_KHR
             then Inl (RuntimeError ''Failed to acquire swap chain image!'', s2)
             else
               (case element (m_vImagesInFlight s2) imageIndex of
                  None \<Rightarrow> Inl (OutOfRange, s2)
                | Some inFlight \<Rightarrow>
                  andThen (case inFlight of
                             None \<Rightarrow> Inr s2
                           | Some imageFence \<Rightarrow> wait_for_fences sched imageFence s2) (\<lambda>s3.
                  let s4 = s3\<lparr>m_vImagesInFlight := (m_vImagesInFlight s3)[imageIndex := Some frameFence]\<rparr>
                  in case element (m_vCommandBuffers s4) imageIndex of
                       None \<Rightarrow> Inl (OutOfRange, s4)
                     | Some commandBuffer \<Rightarrow>
                       let s5 = reset_fences sched frameFence s4;
                           s6 = queue_submit sched (submitResult a) commandBuffer frameFence s5
                       in if submitResult a \<noteq> VK_SUCCESS
                          then Inl (RuntimeError ''Failed to submit draw command buffer!'', s6)
                          else
                            andThen (case element (m_vImagesInFlight s6) imageIndex of
                                       None \<Rightarrow> Inl (OutOfRange, s6)
                                     | Some None \<Rightarrow> Inr s6
                                     | Some (Some imageFence) \<Rightarrow> wait_for_fences sched imageFence s6) (\<lambda>s7.
                            let s8 = call sched (vkQueuePresentKHR (m_currentSwapChain s7) imageIndex) s7;
                                result = presentResult a
                            in andThen
                                 (if result = VK_ERROR_OUT_OF_DATE_KHR \<or> result = VK_SUBOPTIMAL_KHR
                                     \<or> m_framebufferResized s8
                                  then RecreateSwapChain sched (rebuild a)
                                         (s8\<lparr>m_framebufferResized := False\<rparr>)
                                  else if result \<noteq> VK_SUCCESS
                                  then Inl (RuntimeError ''Failed to present swap chain image!'', s8)
                                  else Inr s8) (\<lambda>s9.
                                 let s10 = queue_wait_idle sched (m_presentQueue s9) s9
                                 in Inr (s10\<lparr>m_currentFrame :=
                                              (m_currentFrame s10 + 1) mod MAX_FRAMES_IN_FLIGHT\<rparr>)))))))"


subsection \<open>Properties of logs and states\<close>

text \<open>
  A logged moment is in order when at most \<open>MAX_FRAMES_IN_FLIGHT\<close> submissions are
  pending, no fence has two of them, and the fence of each is unsignaled. The invariant of
  the frame loop adds that there are \<open>MAX_FRAMES_IN_FLIGHT\<close> frame fences, all fences of
  the device, and that only they have pending submissions.
\<close>

definition snapshot_ok :: "event \<times> fence list \<times> bool list \<Rightarrow> bool" where
  "snapshot_ok snapshot \<longleftrightarrow>
     (let pending = fst (snd snapshot); fences = snd (snd snapshot)
      in length pending \<le> unat MAX_FRAMES_IN_FLIGHT
         \<and> distinct pending
         \<and> (\<forall>f \<in> set pending. f < length fences \<and> \<not> fences ! f))"

definition in_flight_inv :: "state \<Rightarrow> bool" where
  "in_flight_inv s \<longleftrightarrow>
     length (m_vFences s) = unat MAX_FRAMES_IN_FLIGHT
     \<and> (\<forall>f \<in> set (m_vFences s). f < length (dev_fences s))
     \<and> distinct (dev_pending s)
     \<and> set (dev_pending s) \<subseteq> set (m_vFences s)
     \<and> (\<forall>f \<in> set (dev_pending s). \<not> dev_fences s ! f)
     \<and> (\<forall>snapshot \<in> set (trace s). snapshot_ok snapshot)"

text \<open>What a step of the rebuild may change and what it leaves alone.\<close>

definition advances :: "(event \<Rightarrow> bool) \<Rightarrow> state \<Rightarrow> state \<Rightarrow> bool" where
  "advances Q s s' \<longleftrightarrow>
     (\<exists>evs. events s' = events s @ evs \<and> (\<forall>e \<in> set evs. Q e)
            \<and> (m_framebufferResized s' \<longrightarrow> m_framebufferResized s \<or> glfwWaitEvents \<in> set evs))
     \<and> m_physicalDevice s' = m_physicalDevice s
     \<and> m_graphicsQueue s' = m_graphicsQueue s
     \<and> m_presentQueue s' = m_presentQueue s
     \<and> m_oldSwapChain s' = m_oldSwapChain s
     \<and> m_vImageAvailableSemaphores s' = m_vImageAvailableSemaphores s
     \<and> m_vRenderFinishedSemaphores s' = m_vRenderFinishedSemaphores s
     \<and> m_vFences s' = m_vFences s
     \<and> m_vImagesInFlight s' = m_vImagesInFlight s
     \<and> m_currentFrame s' = m_currentFrame s
     \<and> set (dev_pending s') \<subseteq> set (dev_pending s)
     \<and> (in_flight_inv s \<longrightarrow> in_flight_inv s')"

text \<open>The host and window members of a state: everything but the device and the log.\<close>

definition host :: "state \<Rightarrow> state" where
  "host s = s\<lparr>dev_fences := [], dev_pending := [], trace := []\<rparr>"

text \<open>
  Parts of \<^verbatim>\<open>RecreateSwapChain\<close> and \<^verbatim>\<open>DrawFrame\<close> under names of their own, for the
  proofs: the six creations of the rebuild, \<^verbatim>\<open>DrawFrame\<close> from the presentation result
  on, and \<^verbatim>\<open>DrawFrame\<close> from the marking of the image on (lemmas
  \<open>RebuildSwapChain_chain\<close> and \<open>DrawFrame_unfold\<close> show that the functions are
  composed of them).
\<close>

definition creation_chain :: "schedule \<Rightarrow> rebuild_answers \<Rightarrow> state \<Rightarrow> outcome" where
  "creation_chain sched a s2 =
     andThen (CreateSwapChain sched a s2) (\<lambda>s3.
     andThen (CreateImageViews sched a s3) (\<lambda>s4.
     andThen (CreateRenderPass sched a s4) (\<lambda>s5.
     andThen (CreateGraphicsPipeline sched a s5) (\<lambda>s6.
     andThen (CreateFramebuffers sched a s6) (\<lambda>s7.
     CreateCommandBuffers sched a s7)))))"

text \<open>The part of \<^verbatim>\<open>DrawFrame\<close> from the presentation on.\<close>

definition present_tail :: "schedule \<Rightarrow> frame_answers \<Rightarrow> state \<Rightarrow> outcome" where
  "present_tail sched a s8 =
     andThen
       (if presentResult a = VK_ERROR_OUT_OF_DATE_KHR \<or> presentResult a = VK_SUBOPTIMAL_KHR
           \<or> m_framebufferResized s8
        then RecreateSwapChain sched (rebuild a) (s8\<lparr>m_framebufferResized := False\<rparr>)
        else if presentResult a \<noteq> VK_SUCCESS
        then Inl (RuntimeError ''Failed to present swap chain image!'', s8)
        else Inr s8) (\<lambda>s9.
       let s10 = queue_wait_idle sched (m_presentQueue s9) s9
       in Inr (s10\<lparr>m_currentFrame := (m_currentFrame s10 + 1) mod MAX_FRAMES_IN_FLIGHT\<rparr>))"

text \<open>The part of \<^verbatim>\<open>DrawFrame\<close> after a successful acquisition.\<close>

definition submit_tail :: "schedule \<Rightarrow> frame_answers \<Rightarrow> fence \<Rightarrow> state \<Rightarrow> outcome" where
  "submit_tail sched a frameFence s3 =
     (let imageIndex = acquiredImageIndex a;
          s4 = s3\<lparr>m_vImagesInFlight := (m_vImagesInFlight s3)[imageIndex := Some frameFence]\<rparr>
      in case element (m_vCommandBuffers s4) imageIndex of
           None \<Rightarrow> Inl (OutOfRange, s4)
         | Some commandBuffer \<Rightarrow>
           let s5 = reset_fences sched frameFence s4;
               s6 = queue_submit sched (submitResult a) commandBuffer frameFence s5
           in if submitResult a \<noteq> VK_SUCCESS
              then Inl (RuntimeError ''Failed to submit draw command buffer!'', s6)
              else
                andThen (case element (m_vImagesInFlight s6) imageIndex of
                           None \<Rightarrow> Inl (OutOfRange, s6)
                         | Some None \<Rightarrow> Inr s6
                         | Some (Some imageFence) \<Rightarrow> wait_for_fences sched imageFence s6) (\<lambda>s7.
                present_tail sched a
                  (call sched (vkQueuePresentKHR (m_currentSwapChain s7) imageIndex) s7)))"

text \<open>
  The acquisition results \<^verbatim>\<open>DrawFrame\<close> goes on with; a list of at most one fence wait.
\<close>

definition acquire_ok :: "frame_answers \<Rightarrow> bool" where
  "acquire_ok a \<longleftrightarrow> acquireResult a = VK_SUCCESS \<or> acquireResult a = VK_SUBOPTIMAL_KHR"

definition fence_waits :: "event list \<Rightarrow> bool" where
  "fence_waits ws \<longleftrightarrow> ws = [] \<or> (\<exists>g. ws = [vkWaitForFences g])"



subsection \<open>A device, a window and answers to run the loop on\<close>

text \<open>
  A GPU that finishes nothing until it is waited for; the application after
  \<^verbatim>\<open>CreateCommandBuffers\<close> on device C (graphics family 2, presentation family 1), with
  a chain of three images and a window of 800 by 600; the same after
  \<^verbatim>\<open>CreateSyncObjects\<close>.
\<close>

definition lazy :: schedule where
  "lazy = (\<lambda>k. [])"

definition state0 :: state where
  "state0 =
     \<lparr>m_physicalDevice = device_C, m_graphicsQueue = 2, m_presentQueue = 1,
      m_currentSwapChain = Some 1, m_oldSwapChain = None,
      m_vSwapChainImages = [2, 3, 4],
      m_swapChainImageFormat = 50,
      m_swapChainExtent = \<lparr>width = 800, height = 600\<rparr>,
      m_vSwapChainImageViews = [5, 6, 7],
      m_vSwapChainFramebuffers = [8, 9, 10],
      m_vCommandBuffers = [11, 12, 13],
      m_vImageAvailableSemaphores = [],
      m_vRenderFinishedSemaphores = [],
      m_vFences = [],
      m_vImagesInFlight = [],
      m_currentFrame = 0,
      m_framebufferResized = False,
      framebufferSize = (800, 600),
      dev_fences = [],
      dev_pending = [],
      next_handle = 14,
      trace = []\<rparr>"

definition state1 :: state where
  "state1 =
     state0\<lparr>m_vImageAvailableSemaphores := [14, 15],
            m_vRenderFinishedSemaphores := [16, 17],
            m_vFences := [0, 1],
            m_vImagesInFlight := [None, None, None],
            dev_fences := [True, True],
            next_handle := 18,
            trace := [(vkCreateSemaphore, [], [True, True]),
                      (vkCreateSemaphore, [], [True, True]),
                      (vkCreateFence, [], [True, True]),
                      (vkCreateSemaphore, [], [True, True]),
                      (vkCreateSemaphore, [], [True, True]),
                      (vkCreateFence, [], [True, True])]\<rparr>"

text \<open>
  Answers: everything succeeds and the surface has a concrete extent; variants with an
  out-of-date acquisition, a suboptimal presentation, a lost device at presentation,
  window events during the wait of a rebuild, and a new chain of four images. A minimised
  window, the state after a \<^verbatim>\<open>glfwPollEvents\<close> that delivered a resize, the state
  after a rebuild to four images, and the calls of a rebuild of the example.
\<close>

definition sync_ok :: "nat \<Rightarrow> VkResult \<times> VkResult \<times> VkResult" where
  "sync_ok i = (VK_SUCCESS, VK_SUCCESS, VK_SUCCESS)"

definition rebuild_ok :: rebuild_answers where
  "rebuild_ok =
     \<lparr>waitEvents = [],
      capabilities = example_capabilities\<lparr>currentExtent := \<lparr>width = 800, height = 600\<rparr>\<rparr>,
      createSwapchainResult = VK_SUCCESS,
      swapchainImageCount = 3,
      createImageViewResult = (\<lambda>i. VK_SUCCESS),
      createRenderPassResult = VK_SUCCESS,
      vertShaderReadable = True,
      fragShaderReadable = True,
      createVertShaderModuleResult = VK_SUCCESS,
      createFragShaderModuleResult = VK_SUCCESS,
      createPipelineLayoutResult = VK_SUCCESS,
      createGraphicsPipelinesResult = VK_SUCCESS,
      createFramebufferResult = (\<lambda>i. VK_SUCCESS),
      allocateCommandBuffersResult = VK_SUCCESS,
      beginCommandBufferResult = (\<lambda>i. VK_SUCCESS),
      endCommandBufferResult = (\<lambda>i. VK_SUCCESS)\<rparr>"

definition frame_ok :: "nat \<Rightarrow> frame_answers" where
  "frame_ok i =
     \<lparr>pollEvents = [], acquireResult = VK_SUCCESS, acquiredImageIndex = i,
      submitResult = VK_SUCCESS, presentResult = VK_SUCCESS, rebuild = rebuild_ok\<rparr>"

definition frame_stale :: frame_answers where
  "frame_stale = (frame_ok 0)\<lparr>acquireResult := VK_ERROR_OUT_OF_DATE_KHR\<rparr>"

definition frame_suboptimal :: frame_answers where
  "frame_suboptimal = (frame_ok 0)\<lparr>presentResult := VK_SUBOPTIMAL_KHR\<rparr>"

definition frame_lost :: frame_answers where
  "frame_lost = (frame_ok 0)\<lparr>presentResult := VK_ERROR_DEVICE_LOST\<rparr>"

definition rebuild_wait :: rebuild_answers where
  "rebuild_wait = rebuild_ok\<lparr>waitEvents := [OtherEvent, FramebufferResized 640 480, OtherEvent]\<rparr>"

definition rebuild4 :: rebuild_answers where
  "rebuild4 = rebuild_ok\<lparr>swapchainImageCount := 4\<rparr>"

definition state_min :: state where
  "state_min = state1\<lparr>framebufferSize := (0, 0)\<rparr>"

definition state_resized :: state where
  "state_resized = poll_events lazy [FramebufferResized 1024 768] state1"

definition state2 :: state where
  "state2 = final (RecreateSwapChain lazy rebuild4 state1)"

definition example_info :: VkSwapchainCreateInfoKHR where
  "example_info =
     \<lparr>ci_minImageCount = 3, ci_imageFormat = 50, ci_imageColorSpace = 0,
      ci_imageExtent = \<lparr>width = 800, height = 600\<rparr>,
      ci_imageSharingMode = VK_SHARING_MODE_CONCURRENT,
      ci_queueFamilyIndices = [2, 1],
      ci_presentMode = VK_PRESENT_MODE_FIFO_KHR, ci_oldSwapchain = None\<rparr>"

definition teardown_trace :: "event list" where
  "teardown_trace =
     [vkDestroyFramebuffer 8, vkDestroyFramebuffer 9, vkDestroyFramebuffer 10,
      vkFreeCommandBuffers [11, 12, 13], vkDestroyPipeline,
      vkDestroyPipelineLayout, vkDestroyRenderPass, vkDestroyImageView 5,
      vkDestroyImageView 6, vkDestroyImageView 7, vkDestroySwapchainKHR None,
      vkDestroySwapchainKHR (Some 1)]"

definition construction_trace :: "event list" where
  "construction_trace =
     [vkGetSwapchainImagesKHR, vkGetSwapchainImagesKHR, vkCreateImageView 0,
      vkCreateImageView 1, vkCreateImageView 2, vkCreateRenderPass,
      ReadFile ''shaders/vert.spv'', ReadFile ''shaders/frag.spv'',
      vkCreateShaderModule, vkCreateShaderModule, vkCreatePipelineLayout,
      vkCreateGraphicsPipelines, vkDestroyShaderModule, vkDestroyShaderModule,
      vkCreateFramebuffer 0, vkCreateFramebuffer 1, vkCreateFramebuffer 2,
      vkAllocateCommandBuffers 3, vkBeginCommandBuffer 0, RecordCommands 0,
      vkEndCommandBuffer 0, vkBeginCommandBuffer 1, RecordCommands 1,
      vkEndCommandBuffer 1, vkBeginCommandBuffer 2, RecordCommands 2,
      vkEndCommandBuffer 2]"

definition rebuild_trace :: "event list" where
  "rebuild_trace =
     vkDeviceWaitIdle # teardown_trace
     @ QuerySwapChainSupport # vkCreateSwapchainKHR example_info # construction_trace"

text \<open>
  The calls that create a swap chain, and those that destroy one.
\<close>

definition is_swapchain_creation :: "event \<Rightarrow> bool" where
  "is_swapchain_creation e = (case e of vkCreateSwapchainKHR info \<Rightarrow> True | _ \<Rightarrow> False)"

definition is_swapchain_destruction :: "event \<Rightarrow> bool" where
  "is_swapchain_destruction e = (case e of vkDestroySwapchainKHR c \<Rightarrow> True | _ \<Rightarrow> False)"

section \<open>Theorems\<close>

subsection \<open>Present mode\<close>

text \<open>
  C9. For every list of available present modes (non-empty or not),
  \<^verbatim>\<open>ChooseSwapPresentMode\<close> returns the mailbox mode when the list contains it and the
  FIFO mode otherwise.
\<close>

theorem ChooseSwapPresentMode_mailbox_or_fifo:
  "ChooseSwapPresentMode availableModes =
     (if VK_PRESENT_MODE_MAILBOX_KHR \<in> set availableModes
      then VK_PRESENT_MODE_MAILBOX_KHR else VK_PRESENT_MODE_FIFO_KHR)"
  by (induction availableModes) auto

theorem ChooseSwapPresentMode_mailbox_or_fifo_witness:
  "ChooseSwapPresentMode [VK_PRESENT_MODE_FIFO_KHR, VK_PRESENT_MODE_MAILBOX_KHR]
     = VK_PRESENT_MODE_MAILBOX_KHR
   \<and> ChooseSwapPresentMode [VK_PRESENT_MODE_IMMEDIATE_KHR, VK_PRESENT_MODE_FIFO_RELAXED_KHR]
     = VK_PRESENT_MODE_FIFO_KHR"
  using ChooseSwapPresentMode_mailbox_or_fifo
          [of "[VK_PRESENT_MODE_FIFO_KHR, VK_PRESENT_MODE_MAILBOX_KHR]"]
        ChooseSwapPresentMode_mailbox_or_fifo
          [of "[VK_PRESENT_MODE_IMMEDIATE_KHR, VK_PRESENT_MODE_FIFO_RELAXED_KHR]"]
  by simp

subsection \<open>Extent\<close>

text \<open>
  C3, as the specification states it, fails at its own example: under the sentinel, with
  bounds (1,1) and (4096,4096) and a framebuffer of (7000,5), the height 5 already lies
  within the bounds and is kept, so the result is not (4096,1).
\<close>

theorem ChooseSwapExtent_example_counterexample:
  "ChooseSwapExtent example_capabilities (7000, 5) \<noteq> \<lparr>width = 4096, height = 1\<rparr>"
  by (simp add: ChooseSwapExtent_def example_capabilities_def UINT32_MAX_def std_clamp_def)

text \<open>
  C3, amended. With a concrete \<^verbatim>\<open>currentExtent\<close> (width other than
  \<^verbatim>\<open>UINT32_MAX\<close>) \<^verbatim>\<open>ChooseSwapExtent\<close> returns it unchanged. With the sentinel it
  returns the framebuffer size clamped component by component, and whenever the lower bound
  of a component does not exceed its upper bound the component of the result lies between
  them. For the example the result is (4096,5).
\<close>

theorem ChooseSwapExtent_clamps:
  "(width (currentExtent caps) \<noteq> UINT32_MAX \<longrightarrow>
      ChooseSwapExtent caps fb = currentExtent caps)
   \<and> (width (currentExtent caps) = UINT32_MAX \<longrightarrow>
      ChooseSwapExtent caps fb =
        \<lparr>width = std_clamp (word_of_int (fst fb)) (width (minImageExtent caps)) (width (maxImageExtent caps)),
         height = std_clamp (word_of_int (snd fb)) (height (minImageExtent caps)) (height (maxImageExtent caps))\<rparr>
      \<and> (width (minImageExtent caps) \<le> width (maxImageExtent caps) \<longrightarrow>
           width (minImageExtent caps) \<le> width (ChooseSwapExtent caps fb)
           \<and> width (ChooseSwapExtent caps fb) \<le> width (maxImageExtent caps))
      \<and> (height (minImageExtent caps) \<le> height (maxImageExtent caps) \<longrightarrow>
           height (minImageExtent caps) \<le> height (ChooseSwapExtent caps fb)
           \<and> height (ChooseSwapExtent caps fb) \<le> height (maxImageExtent caps)))
   \<and> ChooseSwapExtent example_capabilities (7000, 5) = \<lparr>width = 4096, height = 5\<rparr>"
proof -
  have example: "ChooseSwapExtent example_capabilities (7000, 5) = \<lparr>width = 4096, height = 5\<rparr>"
    by (simp add: ChooseSwapExtent_def example_capabilities_def UINT32_MAX_def std_clamp_def)
  have bounded: "lo \<le> hi \<Longrightarrow> lo \<le> std_clamp v lo hi \<and> std_clamp v lo hi \<le> hi"
    for v lo hi :: u32
    by (auto simp: std_clamp_def not_less)
  show ?thesis
    using example bounded by (simp add: ChooseSwapExtent_def Let_def)
qed

theorem ChooseSwapExtent_clamps_witness:
  "width (currentExtent example_capabilities) = UINT32_MAX
   \<and> width (minImageExtent example_capabilities) \<le> width (maxImageExtent example_capabilities)
   \<and> height (minImageExtent example_capabilities) \<le> height (maxImageExtent example_capabilities)
   \<and> ChooseSwapExtent example_capabilities (7000, 5) = \<lparr>width = 4096, height = 5\<rparr>
   \<and> width (currentExtent (example_capabilities\<lparr>currentExtent := \<lparr>width = 800, height = 600\<rparr>\<rparr>))
       \<noteq> UINT32_MAX
   \<and> ChooseSwapExtent (example_capabilities\<lparr>currentExtent := \<lparr>width = 800, height = 600\<rparr>\<rparr>)
       (7000, 5) = \<lparr>width = 800, height = 600\<rparr>"
  using ChooseSwapExtent_clamps [of example_capabilities "(7000, 5)"]
        ChooseSwapExtent_clamps
          [of "example_capabilities\<lparr>currentExtent := \<lparr>width = 800, height = 600\<rparr>\<rparr>" "(7000, 5)"]
  by (simp add: example_capabilities_def UINT32_MAX_def)

subsection \<open>Queue family resolution\<close>

lemma last_index_None: "last_index P xs = None \<longleftrightarrow> (\<forall>x \<in> set xs. \<not> P x)"
  by (induction xs) (auto split: option.splits)

lemma nth_Cons_shift:
  "(\<forall>j. Suc p < j \<and> j < Suc n \<longrightarrow> \<not> P ((x # xs) ! j)) \<longleftrightarrow>
   (\<forall>k. p < k \<and> k < n \<longrightarrow> \<not> P (xs ! k))"
proof
  assume a: "\<forall>j. Suc p < j \<and> j < Suc n \<longrightarrow> \<not> P ((x # xs) ! j)"
  show "\<forall>k. p < k \<and> k < n \<longrightarrow> \<not> P (xs ! k)"
  proof (intro allI impI)
    fix k assume "p < k \<and> k < n"
    with a[rule_format, of "Suc k"] show "\<not> P (xs ! k)" by simp
  qed
next
  assume a: "\<forall>k. p < k \<and> k < n \<longrightarrow> \<not> P (xs ! k)"
  show "\<forall>j. Suc p < j \<and> j < Suc n \<longrightarrow> \<not> P ((x # xs) ! j)"
  proof (intro allI impI)
    fix j assume j: "Suc p < j \<and> j < Suc n"
    then obtain k where "j = Suc k" by (cases j) auto
    with j a[rule_format, of k] show "\<not> P ((x # xs) ! j)" by simp
  qed
qed

text \<open>\<open>last_index\<close> is the greatest position at which the test holds.\<close>

lemma last_index_Some:
  "last_index P xs = Some p \<longleftrightarrow>
     p < length xs \<and> P (xs ! p) \<and> (\<forall>j. p < j \<and> j < length xs \<longrightarrow> \<not> P (xs ! j))"
proof (induction xs arbitrary: p)
  case Nil
  then show ?case by simp
next
  case (Cons x xs)
  show ?case
  proof (cases p)
    case 0
    show ?thesis
    proof (cases "last_index P xs")
      case None
      then have "\<forall>y \<in> set xs. \<not> P y" by (simp add: last_index_None)
      then have "\<forall>j. 0 < j \<and> j < Suc (length xs) \<longrightarrow> \<not> P ((x # xs) ! j)"
        by (auto simp: nth_Cons')
      with None 0 show ?thesis by auto
    next
      case (Some j)
      with Cons.IH[of j] have "j < length xs" "P (xs ! j)" by auto
      then have later: "0 < Suc j \<and> Suc j < length (x # xs) \<and> P ((x # xs) ! Suc j)" by simp
      from Some have "last_index P (x # xs) \<noteq> Some 0" by simp
      with 0 later show ?thesis by blast
    qed
  next
    case (Suc p')
    have "last_index P (x # xs) = Some (Suc p') \<longleftrightarrow> last_index P xs = Some p'"
      by (auto split: option.splits)
    with Suc Cons.IH[of p'] nth_Cons_shift[of p' "length xs" P x xs] show ?thesis
      by simp
  qed
qed

lemma loop_queries:
  "FindQueueFamilies_loop fams i ind = (r, qs) \<Longrightarrow>
     qs = [i ..< i + length qs] \<and> length qs \<le> length fams"
proof (induction fams arbitrary: i ind r qs)
  case Nil then show ?case by simp
next
  case (Cons q rest)
  let ?ind1 = "if supportsPresent q then ind\<lparr>presentFamily := Some i\<rparr> else ind"
  let ?ind2 = "if supportsGraphics q then ?ind1\<lparr>graphicsFamily := Some i\<rparr> else ?ind1"
  show ?case
  proof (cases "IsComplete ?ind2")
    case True
    with Cons.prems have "qs = [i]" by (simp add: Let_def)
    then show ?thesis by simp
  next
    case False
    obtain r' qs' where rec: "FindQueueFamilies_loop rest (i + 1) ?ind2 = (r', qs')"
      by (cases "FindQueueFamilies_loop rest (i + 1) ?ind2")
    with False Cons.prems have qs: "qs = i # qs'" by (simp add: Let_def)
    from Cons.IH[OF rec] have ih: "qs' = [i + 1 ..< i + 1 + length qs']" "length qs' \<le> length rest"
      by simp_all
    have "[i ..< i + Suc (length qs')] = i # [Suc i ..< i + Suc (length qs')]"
      by (rule upt_conv_Cons) simp
    with ih qs show ?thesis by simp
  qed
qed

lemma loop_present:
  "FindQueueFamilies_loop fams i ind = (r, qs) \<Longrightarrow>
     presentFamily r =
       (case last_index supportsPresent (take (length qs) fams) of
          Some j \<Rightarrow> Some (i + j) | None \<Rightarrow> presentFamily ind)"
proof (induction fams arbitrary: i ind r qs)
  case Nil then show ?case by simp
next
  case (Cons q rest)
  then show ?case
    by (auto simp: Let_def split: if_splits prod.splits option.splits)
qed

lemma loop_graphics:
  "FindQueueFamilies_loop fams i ind = (r, qs) \<Longrightarrow>
     graphicsFamily r =
       (case last_index supportsGraphics (take (length qs) fams) of
          Some j \<Rightarrow> Some (i + j) | None \<Rightarrow> graphicsFamily ind)"
proof (induction fams arbitrary: i ind r qs)
  case Nil then show ?case by simp
next
  case (Cons q rest)
  then show ?case
    by (auto simp: Let_def split: if_splits prod.splits option.splits)
qed

lemma loop_stop:
  "FindQueueFamilies_loop fams i ind = (r, qs) \<Longrightarrow>
     (IsComplete r \<or> length qs = length fams)
     \<and> (fams \<noteq> [] \<longrightarrow> qs \<noteq> [])
     \<and> (1 < length qs \<longrightarrow> \<not> complete_with ind (take (length qs - 1) fams))"
proof (induction fams arbitrary: i ind r qs)
  case Nil then show ?case by simp
next
  case (Cons q rest)
  let ?ind1 = "if supportsPresent q then ind\<lparr>presentFamily := Some i\<rparr> else ind"
  let ?ind2 = "if supportsGraphics q then ?ind1\<lparr>graphicsFamily := Some i\<rparr> else ?ind1"
  have step: "complete_with ind (q # fs) = complete_with ?ind2 fs" for fs
    by (auto simp: complete_with_def)
  show ?case
  proof (cases "IsComplete ?ind2")
    case True
    with Cons.prems have "qs = [i]" "r = ?ind2" by (simp_all add: Let_def)
    with True show ?thesis by simp
  next
    case False
    obtain r' qs' where rec: "FindQueueFamilies_loop rest (i + 1) ?ind2 = (r', qs')"
      by (cases "FindQueueFamilies_loop rest (i + 1) ?ind2")
    with False Cons.prems have qs: "qs = i # qs'" and r: "r = r'" by (simp_all add: Let_def)
    from Cons.IH[OF rec] have ih: "IsComplete r' \<or> length qs' = length rest"
      "1 < length qs' \<longrightarrow> \<not> complete_with ?ind2 (take (length qs' - 1) rest)"
      by simp_all
    have "\<not> complete_with ind (take (length qs - 1) (q # rest))" if "1 < length qs"
    proof (cases "length qs'")
      case 0 with that qs show ?thesis by simp
    next
      case (Suc n)
      show ?thesis
      proof (cases n)
        case 0
        with Suc qs have "take (length qs - 1) (q # rest) = [q]" by simp
        moreover have "complete_with ind [q] = complete_with ?ind2 []" by (rule step)
        moreover have "complete_with ?ind2 [] = IsComplete ?ind2"
          by (auto simp: complete_with_def IsComplete_def)
        ultimately show ?thesis using False by simp
      next
        case (Suc m)
        with \<open>length qs' = Suc n\<close> ih(2) qs show ?thesis by (simp add: step)
      qed
    qed
    with ih(1) qs r show ?thesis by auto
  qed
qed

text \<open>The scan from family 0 with nothing resolved, as \<^verbatim>\<open>FindQueueFamilies\<close> runs it.\<close>

lemma scan_from_start:
  assumes run: "FindQueueFamilies_loop fams 0 \<lparr>graphicsFamily = None, presentFamily = None\<rparr> = (r, qs)"
  shows "qs = [0 ..< length qs]"
    and "length qs \<le> length fams"
    and "presentFamily r = last_index supportsPresent (take (length qs) fams)"
    and "graphicsFamily r = last_index supportsGraphics (take (length qs) fams)"
    and "IsComplete r \<longleftrightarrow> both_roles fams"
    and "IsComplete r \<longleftrightarrow> both_roles (take (length qs) fams)"
    and "\<not> both_roles (take (length qs - 1) fams)"
    and "IsComplete r \<or> length qs = length fams"
proof -
  let ?e = "\<lparr>graphicsFamily = None, presentFamily = None\<rparr>"
  let ?m = "length qs"
  from loop_queries[OF run] show q1: "qs = [0 ..< ?m]" and q2: "?m \<le> length fams" by simp_all
  from loop_present[OF run] show p: "presentFamily r = last_index supportsPresent (take ?m fams)"
    by (simp split: option.splits)
  from loop_graphics[OF run] show g: "graphicsFamily r = last_index supportsGraphics (take ?m fams)"
    by (simp split: option.splits)
  show c: "IsComplete r \<longleftrightarrow> both_roles (take ?m fams)"
    by (auto simp: IsComplete_def both_roles_def p g last_index_None)
  from loop_stop[OF run] have s1: "IsComplete r \<or> ?m = length fams"
    and s2: "1 < ?m \<longrightarrow> \<not> complete_with ?e (take (?m - 1) fams)" by simp_all
  from s1 show "IsComplete r \<or> ?m = length fams" .
  have mono: "both_roles (take ?m fams) \<Longrightarrow> both_roles fams"
    unfolding both_roles_def by (meson in_set_takeD)
  show "IsComplete r \<longleftrightarrow> both_roles fams"
    using c s1 mono by auto
  show "\<not> both_roles (take (?m - 1) fams)"
  proof (cases "1 < ?m")
    case True
    with s2 show ?thesis by (simp add: complete_with_def both_roles_def)
  next
    case False
    then have "?m - 1 = 0" by simp
    then have "take (?m - 1) fams = []" by (simp only: take_0)
    then show ?thesis by (simp only: both_roles_def) simp
  qed
qed

lemma FindQueueFamilies_complete_iff:
  "IsComplete (FindQueueFamilies device) \<longleftrightarrow> both_roles (queueFamilies device)"
proof -
  obtain r qs where run:
    "FindQueueFamilies_loop (queueFamilies device) 0 \<lparr>graphicsFamily = None, presentFamily = None\<rparr>
       = (r, qs)"
    by (cases "FindQueueFamilies_loop (queueFamilies device) 0
                 \<lparr>graphicsFamily = None, presentFamily = None\<rparr>")
  then have "FindQueueFamilies device = r" by (simp add: FindQueueFamilies_def)
  with scan_from_start(5)[OF run] show ?thesis by simp
qed

text \<open>
  C5, as the specification states it, fails: on a device whose families 0 and 1 both
  present to the surface and whose family 2 is the only one with graphics, the scan stores
  family 1 for presentation, where the first supporting family is family 0.
\<close>

theorem FindQueueFamilies_first_counterexample:
  "presentFamily (FindQueueFamilies device_C)
     \<noteq> first_index supportsPresent (queueFamilies device_C)"
  by (simp add: FindQueueFamilies_def device_C_def supportsPresent_def supportsGraphics_def
        VK_QUEUE_GRAPHICS_BIT_def IsComplete_def)

text \<open>
  C5, amended. \<^verbatim>\<open>FindQueueFamilies\<close> scans the families in index order from 0 and
  stops after the first family with which both roles have occurred (the families before it
  do not cover both roles); when the roles are never both covered it scans every family.
  For each role it records the last scanned family that supports the role (the two may
  coincide), and nothing when no scanned family does. The result is complete exactly when
  each role has a supporting family on the device.
\<close>

theorem FindQueueFamilies_records_last:
  "FindQueueFamilies_queries device = [0 ..< length (FindQueueFamilies_queries device)]
   \<and> length (FindQueueFamilies_queries device) \<le> length (queueFamilies device)
   \<and> presentFamily (FindQueueFamilies device) =
       last_index supportsPresent
         (take (length (FindQueueFamilies_queries device)) (queueFamilies device))
   \<and> graphicsFamily (FindQueueFamilies device) =
       last_index supportsGraphics
         (take (length (FindQueueFamilies_queries device)) (queueFamilies device))
   \<and> (IsComplete (FindQueueFamilies device) \<longleftrightarrow> both_roles (queueFamilies device))
   \<and> (IsComplete (FindQueueFamilies device) \<longrightarrow>
        both_roles (take (length (FindQueueFamilies_queries device)) (queueFamilies device))
        \<and> \<not> both_roles (take (length (FindQueueFamilies_queries device) - 1) (queueFamilies device)))
   \<and> (\<not> IsComplete (FindQueueFamilies device) \<longrightarrow>
        length (FindQueueFamilies_queries device) = length (queueFamilies device))"
proof -
  obtain r qs where run:
    "FindQueueFamilies_loop (queueFamilies device) 0 \<lparr>graphicsFamily = None, presentFamily = None\<rparr>
       = (r, qs)"
    by (cases "FindQueueFamilies_loop (queueFamilies device) 0
                 \<lparr>graphicsFamily = None, presentFamily = None\<rparr>")
  then have r: "FindQueueFamilies device = r" and qs: "FindQueueFamilies_queries device = qs"
    by (simp_all add: FindQueueFamilies_def FindQueueFamilies_queries_def)
  show ?thesis
    unfolding r qs using scan_from_start[OF run] by blast
qed

theorem FindQueueFamilies_records_last_witness:
  "IsComplete (FindQueueFamilies device_C)
   \<and> FindQueueFamilies_queries device_C = [0, 1, 2]
   \<and> presentFamily (FindQueueFamilies device_C) = Some 1
   \<and> graphicsFamily (FindQueueFamilies device_C) = Some 2
   \<and> both_roles (take 3 (queueFamilies device_C))
   \<and> \<not> both_roles (take 2 (queueFamilies device_C))
   \<and> \<not> IsComplete (FindQueueFamilies (device_C\<lparr>queueFamilies := [\<lparr>queueFlags = 6, surfaceSupport = 1\<rparr>]\<rparr>))
   \<and> length (FindQueueFamilies_queries
               (device_C\<lparr>queueFamilies := [\<lparr>queueFlags = 6, surfaceSupport = 1\<rparr>]\<rparr>)) = 1"
  using FindQueueFamilies_records_last [of device_C]
        FindQueueFamilies_records_last
          [of "device_C\<lparr>queueFamilies := [\<lparr>queueFlags = 6, surfaceSupport = 1\<rparr>]\<rparr>"]
  by (simp add: FindQueueFamilies_def FindQueueFamilies_queries_def device_C_def
        supportsPresent_def supportsGraphics_def VK_QUEUE_GRAPHICS_BIT_def IsComplete_def
        both_roles_def)

subsection \<open>Device scoring and selection\<close>

lemma extension_fold:
  "fold (\<lambda>e req. removeAll e req) avail req = filter (\<lambda>r. r \<notin> set avail) req"
  by (induction avail arbitrary: req) (auto simp: removeAll_filter_not_eq intro: filter_cong)

lemma DeviceExtensionSupport_iff:
  "DeviceExtensionSupport device \<longleftrightarrow> set g_vDeviceExtensions \<subseteq> set (extensionNames device)"
  by (auto simp: DeviceExtensionSupport_def extension_fold filter_empty_conv)

lemma DeviceSuitable_iff: "DeviceSuitable device \<longleftrightarrow> meets_requirements device"
  by (auto simp: DeviceSuitable_def meets_requirements_def Let_def DeviceExtensionSupport_iff
        FindQueueFamilies_complete_iff both_roles_def)

lemma set_multimap_insert: "set (multimap_insert p xs) = insert p (set xs)"
  by (induction xs) auto

lemma sorted_multimap_insert:
  "sorted (map fst xs) \<Longrightarrow> sorted (map fst (multimap_insert p xs))"
  by (induction xs) (auto simp: not_less set_multimap_insert)

lemma fold_insert_sorted:
  "sorted (map fst acc) \<Longrightarrow>
   sorted (map fst (fold (\<lambda>d c. multimap_insert (f d, d) c) ds acc))"
  by (induction ds arbitrary: acc) (auto simp: sorted_multimap_insert)

lemma fold_insert_set:
  "set (fold (\<lambda>d c. multimap_insert (f d, d) c) ds acc) = (\<lambda>d. (f d, d)) ` set ds \<union> set acc"
  by (induction ds arbitrary: acc) (auto simp: set_multimap_insert)

lemma sorted_last_max:
  "sorted (map fst xs) \<Longrightarrow> x \<in> set xs \<Longrightarrow> fst x \<le> fst (last xs)"
  by (induction xs) (auto split: if_splits)

lemma candidates_last:
  assumes "devices \<noteq> []"
  defines "candidates \<equiv> fold (\<lambda>device c. multimap_insert (RateDevice device, device) c) devices []"
  shows "\<exists>chosen \<in> set devices. last candidates = (RateDevice chosen, chosen)
           \<and> (\<forall>d \<in> set devices. RateDevice d \<le> RateDevice chosen)"
proof -
  have set_c: "set candidates = (\<lambda>d. (RateDevice d, d)) ` set devices"
    unfolding candidates_def by (simp add: fold_insert_set)
  with assms(1) have ne: "candidates \<noteq> []" by auto
  have sorted_c: "sorted (map fst candidates)"
    unfolding candidates_def by (rule fold_insert_sorted) simp
  from ne have "last candidates \<in> set candidates" by simp
  with set_c obtain chosen where ch: "chosen \<in> set devices" "last candidates = (RateDevice chosen, chosen)"
    by auto
  have "RateDevice d \<le> RateDevice chosen" if "d \<in> set devices" for d
  proof -
    from that set_c have "(RateDevice d, d) \<in> set candidates" by auto
    from sorted_last_max[OF sorted_c this] ch(2) show ?thesis by simp
  qed
  with ch show ?thesis by blast
qed

lemma Pick_unfold:
  "devices \<noteq> [] \<Longrightarrow>
   PickPhysicalDevice VK_SUCCESS devices =
     (let candidates = fold (\<lambda>device c. multimap_insert (RateDevice device, device) c) devices []
      in if 0 < fst (last candidates) then Inr (snd (last candidates))
         else Inl (RuntimeError ''Failed to find suitable GPU!''))"
  by (simp add: PickPhysicalDevice_def ReportError_def Let_def)

lemma Pick_Inr:
  assumes "PickPhysicalDevice VK_SUCCESS devices = Inr chosen"
  shows "chosen \<in> set devices \<and> 0 < RateDevice chosen
         \<and> (\<forall>d \<in> set devices. RateDevice d \<le> RateDevice chosen)"
proof -
  have ne: "devices \<noteq> []"
    using assms by (auto simp: PickPhysicalDevice_def ReportError_def)
  from candidates_last[OF ne] obtain c where c: "c \<in> set devices"
    "last (fold (\<lambda>device c. multimap_insert (RateDevice device, device) c) devices []) = (RateDevice c, c)"
    "\<forall>d \<in> set devices. RateDevice d \<le> RateDevice c" by blast
  from assms have "0 < RateDevice c \<and> chosen = c"
    by (simp add: Pick_unfold[OF ne] Let_def c(2) split: if_splits)
  with c show ?thesis by simp
qed

lemma Pick_fails_iff:
  "isl (PickPhysicalDevice VK_SUCCESS devices) \<longleftrightarrow> (\<forall>d \<in> set devices. RateDevice d = 0)"
proof (cases "devices = []")
  case True
  then show ?thesis by (simp add: PickPhysicalDevice_def ReportError_def)
next
  case False
  from candidates_last[OF False] obtain c where c: "c \<in> set devices"
    "last (fold (\<lambda>device c. multimap_insert (RateDevice device, device) c) devices []) = (RateDevice c, c)"
    "\<forall>d \<in> set devices. RateDevice d \<le> RateDevice c" by blast
  have "isl (PickPhysicalDevice VK_SUCCESS devices) \<longleftrightarrow> RateDevice c = 0"
    by (simp add: Pick_unfold[OF False] Let_def c(2) word_gt_0)
  also have "\<dots> \<longleftrightarrow> (\<forall>d \<in> set devices. RateDevice d = 0)"
    using c(1,3) by (metis word_le_0_iff)
  finally show ?thesis .
qed

lemma RateDevice_A: "RateDevice device_A = 4096"
  by (simp add: RateDevice_def DeviceSuitable_iff meets_requirements_def device_A_def
        supportsGraphics_def supportsPresent_def VK_QUEUE_GRAPHICS_BIT_def g_vDeviceExtensions_def)

lemma RateDevice_B: "RateDevice device_B = 3048"
  by (simp add: RateDevice_def DeviceSuitable_iff meets_requirements_def device_B_def
        supportsGraphics_def supportsPresent_def VK_QUEUE_GRAPHICS_BIT_def g_vDeviceExtensions_def)

lemma Pick_AB: "PickPhysicalDevice VK_SUCCESS [device_A, device_B] = Inr device_A"
  by (simp add: PickPhysicalDevice_def ReportError_def RateDevice_A RateDevice_B)

lemma Pick_BA: "PickPhysicalDevice VK_SUCCESS [device_B, device_A] = Inr device_A"
  by (simp add: PickPhysicalDevice_def ReportError_def RateDevice_A RateDevice_B)

lemma RateDevice_eq:
  "RateDevice device =
     (if usable device
      then maxImageDimension2D device
           + (if deviceType device = VK_PHYSICAL_DEVICE_TYPE_DISCRETE_GPU then 1000 else 0)
      else 0)"
  by (simp add: RateDevice_def usable_def Let_def)

lemma RateDevice_unat:
  "usable device \<Longrightarrow> unat (maxImageDimension2D device) + 1000 < 2 ^ 32 \<Longrightarrow>
   unat (RateDevice device) =
     unat (maxImageDimension2D device)
     + (if deviceType device = VK_PHYSICAL_DEVICE_TYPE_DISCRETE_GPU then 1000 else 0)"
  by (simp add: RateDevice_eq unat_word_ariths)

text \<open>
  C6. A usable device (one with the geometry shader feature that meets the requirements
  of the specification) scores its \<^verbatim>\<open>maxImageDimension2D\<close> plus 1000 exactly when it is
  a discrete GPU; the sum is the \<^verbatim>\<open>uint32_t\<close> sum of the code, and it is the sum of the
  numbers whenever that fits 32 bits. An unusable device scores 0. When the enumeration
  succeeds, \<^verbatim>\<open>PickPhysicalDevice\<close> selects an enumerated device that no other outscores,
  and it fails exactly when no device scores above 0. In the scenario of the
  specification the integrated device A (4096) is selected over the discrete device B
  (3048), whatever the order of enumeration.
\<close>

theorem RateDevice_PickPhysicalDevice:
  "(usable device \<longrightarrow>
      RateDevice device =
        maxImageDimension2D device
        + (if deviceType device = VK_PHYSICAL_DEVICE_TYPE_DISCRETE_GPU then 1000 else 0))
   \<and> (usable device \<and> unat (maxImageDimension2D device) + 1000 < 2 ^ 32 \<longrightarrow>
      unat (RateDevice device) =
        unat (maxImageDimension2D device)
        + (if deviceType device = VK_PHYSICAL_DEVICE_TYPE_DISCRETE_GPU then 1000 else 0))
   \<and> (\<not> usable device \<longrightarrow> RateDevice device = 0)
   \<and> (usable device \<longleftrightarrow> geometryShader device \<noteq> 0 \<and> meets_requirements device)
   \<and> (PickPhysicalDevice VK_SUCCESS devices = Inr chosen \<longrightarrow>
        chosen \<in> set devices \<and> 0 < RateDevice chosen
        \<and> (\<forall>d \<in> set devices. RateDevice d \<le> RateDevice chosen))
   \<and> (isl (PickPhysicalDevice VK_SUCCESS devices) \<longleftrightarrow>
        \<not> (\<exists>d \<in> set devices. 0 < RateDevice d))
   \<and> RateDevice device_A = 4096 \<and> RateDevice device_B = 3048
   \<and> PickPhysicalDevice VK_SUCCESS [device_A, device_B] = Inr device_A
   \<and> PickPhysicalDevice VK_SUCCESS [device_B, device_A] = Inr device_A"
proof -
  have fails: "isl (PickPhysicalDevice VK_SUCCESS devices) \<longleftrightarrow>
                 \<not> (\<exists>d \<in> set devices. 0 < RateDevice d)"
    by (simp add: Pick_fails_iff word_gt_0)
  have usable_iff: "usable device \<longleftrightarrow> geometryShader device \<noteq> 0 \<and> meets_requirements device"
    by (simp add: usable_def DeviceSuitable_iff)
  show ?thesis
    using RateDevice_eq[of device] RateDevice_unat[of device] Pick_Inr[of devices chosen]
      fails usable_iff RateDevice_A RateDevice_B Pick_AB Pick_BA
    by presburger
qed

theorem RateDevice_PickPhysicalDevice_witness:
  "usable device_B
   \<and> unat (maxImageDimension2D device_B) + 1000 < 2 ^ 32
   \<and> RateDevice device_B = 2048 + 1000
   \<and> \<not> usable (device_B\<lparr>geometryShader := 0\<rparr>)
   \<and> RateDevice (device_B\<lparr>geometryShader := 0\<rparr>) = 0
   \<and> PickPhysicalDevice VK_SUCCESS [device_A, device_B] = Inr device_A
   \<and> device_A \<in> set [device_A, device_B]
   \<and> list_all (\<lambda>d. RateDevice d \<le> RateDevice device_A) [device_A, device_B]
   \<and> isl (PickPhysicalDevice VK_SUCCESS [device_B\<lparr>geometryShader := 0\<rparr>])"
  using RateDevice_PickPhysicalDevice [of device_B "[device_A, device_B]" device_A]
        RateDevice_PickPhysicalDevice
          [of "device_B\<lparr>geometryShader := 0\<rparr>" "[device_B\<lparr>geometryShader := 0\<rparr>]" device_A]
  by (simp add: usable_def DeviceSuitable_iff meets_requirements_def device_B_def
        supportsGraphics_def supportsPresent_def VK_QUEUE_GRAPHICS_BIT_def g_vDeviceExtensions_def)

subsection \<open>Steps that only add calls\<close>

lemma advances_refl: "advances Q s s"
  by (auto simp: advances_def)

lemma advances_trans: "advances Q s s1 \<Longrightarrow> advances Q s1 s2 \<Longrightarrow> advances Q s s2"
  unfolding advances_def
  apply (elim conjE exE)
  apply (intro conjI)
  subgoal for evs1 evs2 by (rule exI[of _ "evs1 @ evs2"]) auto
  by auto

lemma advances_mono: "advances Q s s' \<Longrightarrow> (\<And>e. Q e \<Longrightarrow> Q' e) \<Longrightarrow> advances Q' s s'"
  unfolding advances_def by blast

lemma in_flight_bound:
  assumes "length (m_vFences s) = unat MAX_FRAMES_IN_FLIGHT" "distinct (dev_pending s)"
    "set (dev_pending s) \<subseteq> set (m_vFences s)"
  shows "length (dev_pending s) \<le> unat MAX_FRAMES_IN_FLIGHT"
proof -
  have "length (dev_pending s) = card (set (dev_pending s))"
    using assms(2) by (simp add: distinct_card)
  also have "\<dots> \<le> card (set (m_vFences s))"
    using assms(3) by (simp add: card_mono)
  also have "\<dots> \<le> length (m_vFences s)" by (rule card_length)
  finally show ?thesis using assms(1) by simp
qed

lemma gpu_finish_advances: "advances Q s (gpu_finish f s)"
proof -
  have "in_flight_inv (gpu_finish f s)" if inv: "in_flight_inv s" and f: "f \<in> set (dev_pending s)"
  proof -
    have "\<not> (dev_fences s)[f := True] ! g" if "g \<in> set (remove1 f (dev_pending s))" for g
    proof -
      from that inv have "g \<noteq> f" by (auto simp: in_flight_inv_def)
      moreover from that have "g \<in> set (dev_pending s)" by (meson notin_set_remove1)
      ultimately show ?thesis using inv by (simp add: in_flight_inv_def)
    qed
    moreover have "set (remove1 f (dev_pending s)) \<subseteq> set (m_vFences s)"
      using inv set_remove1_subset[of f "dev_pending s"] by (auto simp: in_flight_inv_def)
    ultimately show ?thesis
      using inv f by (simp add: gpu_finish_def in_flight_inv_def)
  qed
  moreover have "set (remove1 f (dev_pending s)) \<subseteq> set (dev_pending s)"
    by (rule set_remove1_subset)
  ultimately show ?thesis
    by (auto simp: advances_def gpu_finish_def events_def)
qed

lemma fold_advances:
  "(\<And>x s. advances Q s (g x s)) \<Longrightarrow> advances Q s (fold g xs s)"
proof (induction xs arbitrary: s)
  case Nil show ?case by (simp add: advances_refl)
next
  case (Cons x xs)
  from Cons.prems have "advances Q s (g x s)" .
  moreover from Cons have "advances Q (g x s) (fold g xs (g x s))" by blast
  ultimately show ?case by (simp add: advances_trans[of Q s "g x s"])
qed

lemma gpu_advance_advances: "advances Q s (gpu_advance sched s)"
  unfolding gpu_advance_def by (rule fold_advances) (rule gpu_finish_advances)

lemma log_call_advances: "Q ev \<Longrightarrow> advances Q s (log_call ev s)"
proof -
  have "in_flight_inv (log_call ev s)" if inv: "in_flight_inv s"
  proof -
    have "length (dev_pending s) \<le> unat MAX_FRAMES_IN_FLIGHT"
      using inv by (intro in_flight_bound) (simp_all add: in_flight_inv_def)
    moreover have "\<forall>f \<in> set (dev_pending s). f < length (dev_fences s)"
      using inv by (auto simp: in_flight_inv_def)
    ultimately have "snapshot_ok (ev, dev_pending s, dev_fences s)"
      using inv by (simp add: snapshot_ok_def in_flight_inv_def)
    with inv show ?thesis by (simp add: log_call_def in_flight_inv_def)
  qed
  then show "Q ev \<Longrightarrow> advances Q s (log_call ev s)"
    by (simp add: advances_def log_call_def events_def)
qed

lemma call_advances: "Q ev \<Longrightarrow> advances Q s (call sched ev s)"
  unfolding call_def
  by (rule advances_trans[OF gpu_advance_advances[of Q s sched]]) (simp add: log_call_advances)

lemma advances_andThen:
  assumes "advances Q s (final r)"
    and "\<And>s1. r = Inr s1 \<Longrightarrow> advances Q s1 (final (f s1))"
  shows "advances Q s (final (andThen r f))"
proof (cases r)
  case (Inl e)
  with assms(1) show ?thesis by (simp add: andThen_def)
next
  case (Inr s1)
  with assms have "advances Q s s1" "advances Q s1 (final (f s1))" by (simp_all add: final_def)
  then have "advances Q s (final (f s1))" by (rule advances_trans)
  with Inr show ?thesis by (simp add: andThen_def)
qed

lemma run_calls_advances:
  "(\<And>ev ok err. (ev, ok, err) \<in> set cs \<Longrightarrow> Q ev) \<Longrightarrow> advances Q s (final (run_calls sched cs s))"
proof (induction cs arbitrary: s)
  case Nil show ?case by (simp add: final_def advances_refl)
next
  case (Cons c cs)
  obtain ev ok err where c: "c = (ev, ok, err)" by (cases c)
  with Cons.prems have q: "Q ev" by auto
  have step: "advances Q s (call sched ev s)" using q by (rule call_advances)
  show ?case
  proof (cases ok)
    case False
    with c step show ?thesis by (simp add: final_def)
  next
    case True
    have "advances Q (call sched ev s) (final (run_calls sched cs (call sched ev s)))"
      by (rule Cons.IH) (use Cons.prems in auto)
    with step True c show ?thesis by (simp add: advances_trans[of Q s "call sched ev s"])
  qed
qed

subsection \<open>The members a call leaves alone\<close>

lemma host_fields [simp]:
  "m_physicalDevice (host s) = m_physicalDevice s"
  "m_graphicsQueue (host s) = m_graphicsQueue s"
  "m_presentQueue (host s) = m_presentQueue s"
  "m_currentSwapChain (host s) = m_currentSwapChain s"
  "m_oldSwapChain (host s) = m_oldSwapChain s"
  "m_vSwapChainImages (host s) = m_vSwapChainImages s"
  "m_swapChainImageFormat (host s) = m_swapChainImageFormat s"
  "m_swapChainExtent (host s) = m_swapChainExtent s"
  "m_vSwapChainImageViews (host s) = m_vSwapChainImageViews s"
  "m_vSwapChainFramebuffers (host s) = m_vSwapChainFramebuffers s"
  "m_vCommandBuffers (host s) = m_vCommandBuffers s"
  "m_vImageAvailableSemaphores (host s) = m_vImageAvailableSemaphores s"
  "m_vRenderFinishedSemaphores (host s) = m_vRenderFinishedSemaphores s"
  "m_vFences (host s) = m_vFences s"
  "m_vImagesInFlight (host s) = m_vImagesInFlight s"
  "m_currentFrame (host s) = m_currentFrame s"
  "m_framebufferResized (host s) = m_framebufferResized s"
  "framebufferSize (host s) = framebufferSize s"
  "next_handle (host s) = next_handle s"
  by (simp_all add: host_def)

lemma same_host:
  assumes "host s' = host s"
  shows "m_physicalDevice s' = m_physicalDevice s"
    "m_graphicsQueue s' = m_graphicsQueue s"
    "m_presentQueue s' = m_presentQueue s"
    "m_currentSwapChain s' = m_currentSwapChain s"
    "m_oldSwapChain s' = m_oldSwapChain s"
    "m_vSwapChainImages s' = m_vSwapChainImages s"
    "m_swapChainImageFormat s' = m_swapChainImageFormat s"
    "m_swapChainExtent s' = m_swapChainExtent s"
    "m_vSwapChainImageViews s' = m_vSwapChainImageViews s"
    "m_vSwapChainFramebuffers s' = m_vSwapChainFramebuffers s"
    "m_vCommandBuffers s' = m_vCommandBuffers s"
    "m_vImageAvailableSemaphores s' = m_vImageAvailableSemaphores s"
    "m_vRenderFinishedSemaphores s' = m_vRenderFinishedSemaphores s"
    "m_vFences s' = m_vFences s"
    "m_vImagesInFlight s' = m_vImagesInFlight s"
    "m_currentFrame s' = m_currentFrame s"
    "m_framebufferResized s' = m_framebufferResized s"
    "framebufferSize s' = framebufferSize s"
    "next_handle s' = next_handle s"
proof -
  show "m_physicalDevice s' = m_physicalDevice s"
    using arg_cong[OF assms, of m_physicalDevice] by (simp only: host_fields)
  show "m_graphicsQueue s' = m_graphicsQueue s"
    using arg_cong[OF assms, of m_graphicsQueue] by (simp only: host_fields)
  show "m_presentQueue s' = m_presentQueue s"
    using arg_cong[OF assms, of m_presentQueue] by (simp only: host_fields)
  show "m_currentSwapChain s' = m_currentSwapChain s"
    using arg_cong[OF assms, of m_currentSwapChain] by (simp only: host_fields)
  show "m_oldSwapChain s' = m_oldSwapChain s"
    using arg_cong[OF assms, of m_oldSwapChain] by (simp only: host_fields)
  show "m_vSwapChainImages s' = m_vSwapChainImages s"
    using arg_cong[OF assms, of m_vSwapChainImages] by (simp only: host_fields)
  show "m_swapChainImageFormat s' = m_swapChainImageFormat s"
    using arg_cong[OF assms, of m_swapChainImageFormat] by (simp only: host_fields)
  show "m_swapChainExtent s' = m_swapChainExtent s"
    using arg_cong[OF assms, of m_swapChainExtent] by (simp only: host_fields)
  show "m_vSwapChainImageViews s' = m_vSwapChainImageViews s"
    using arg_cong[OF assms, of m_vSwapChainImageViews] by (simp only: host_fields)
  show "m_vSwapChainFramebuffers s' = m_vSwapChainFramebuffers s"
    using arg_cong[OF assms, of m_vSwapChainFramebuffers] by (simp only: host_fields)
  show "m_vCommandBuffers s' = m_vCommandBuffers s"
    using arg_cong[OF assms, of m_vCommandBuffers] by (simp only: host_fields)
  show "m_vImageAvailableSemaphores s' = m_vImageAvailableSemaphores s"
    using arg_cong[OF assms, of m_vImageAvailableSemaphores] by (simp only: host_fields)
  show "m_vRenderFinishedSemaphores s' = m_vRenderFinishedSemaphores s"
    using arg_cong[OF assms, of m_vRenderFinishedSemaphores] by (simp only: host_fields)
  show "m_vFences s' = m_vFences s"
    using arg_cong[OF assms, of m_vFences] by (simp only: host_fields)
  show "m_vImagesInFlight s' = m_vImagesInFlight s"
    using arg_cong[OF assms, of m_vImagesInFlight] by (simp only: host_fields)
  show "m_currentFrame s' = m_currentFrame s"
    using arg_cong[OF assms, of m_currentFrame] by (simp only: host_fields)
  show "m_framebufferResized s' = m_framebufferResized s"
    using arg_cong[OF assms, of m_framebufferResized] by (simp only: host_fields)
  show "framebufferSize s' = framebufferSize s"
    using arg_cong[OF assms, of framebufferSize] by (simp only: host_fields)
  show "next_handle s' = next_handle s"
    using arg_cong[OF assms, of next_handle] by (simp only: host_fields)
qed

lemma events_update [simp]:
  "events (s\<lparr>m_physicalDevice := v0\<rparr>) = events s"
  "events (s\<lparr>m_graphicsQueue := v1\<rparr>) = events s"
  "events (s\<lparr>m_presentQueue := v2\<rparr>) = events s"
  "events (s\<lparr>m_currentSwapChain := v3\<rparr>) = events s"
  "events (s\<lparr>m_oldSwapChain := v4\<rparr>) = events s"
  "events (s\<lparr>m_vSwapChainImages := v5\<rparr>) = events s"
  "events (s\<lparr>m_swapChainImageFormat := v6\<rparr>) = events s"
  "events (s\<lparr>m_swapChainExtent := v7\<rparr>) = events s"
  "events (s\<lparr>m_vSwapChainImageViews := v8\<rparr>) = events s"
  "events (s\<lparr>m_vSwapChainFramebuffers := v9\<rparr>) = events s"
  "events (s\<lparr>m_vCommandBuffers := v10\<rparr>) = events s"
  "events (s\<lparr>m_vImageAvailableSemaphores := v11\<rparr>) = events s"
  "events (s\<lparr>m_vRenderFinishedSemaphores := v12\<rparr>) = events s"
  "events (s\<lparr>m_vFences := v13\<rparr>) = events s"
  "events (s\<lparr>m_vImagesInFlight := v14\<rparr>) = events s"
  "events (s\<lparr>m_currentFrame := v15\<rparr>) = events s"
  "events (s\<lparr>m_framebufferResized := v16\<rparr>) = events s"
  "events (s\<lparr>framebufferSize := v17\<rparr>) = events s"
  "events (s\<lparr>next_handle := v18\<rparr>) = events s"
  "events (s\<lparr>dev_fences := v19\<rparr>) = events s"
  "events (s\<lparr>dev_pending := v20\<rparr>) = events s"
  by (simp_all add: events_def)

lemma host_gpu_finish [simp]: "host (gpu_finish f s) = host s"
  by (simp add: gpu_finish_def host_def)

lemma trace_gpu_finish [simp]: "trace (gpu_finish f s) = trace s"
  by (simp add: gpu_finish_def)

lemma host_gpu_advance [simp]: "host (gpu_advance sched s) = host s"
proof -
  have "host (fold gpu_finish xs s) = host s" for xs
    by (induction xs arbitrary: s) simp_all
  then show ?thesis by (simp add: gpu_advance_def)
qed

lemma trace_gpu_advance [simp]: "trace (gpu_advance sched s) = trace s"
proof -
  have "trace (fold gpu_finish xs s) = trace s" for xs
    by (induction xs arbitrary: s) simp_all
  then show ?thesis by (simp add: gpu_advance_def)
qed

lemma host_log_call [simp]: "host (log_call ev s) = host s"
  by (simp add: log_call_def host_def)

lemma events_log_call [simp]: "events (log_call ev s) = events s @ [ev]"
  by (simp add: log_call_def events_def)

lemma events_gpu_advance [simp]: "events (gpu_advance sched s) = events s"
  by (simp add: events_def)

lemma host_gpu_drain [simp]: "host (gpu_drain s) = host s"
  by (simp add: gpu_drain_def host_def)

lemma events_gpu_drain [simp]: "events (gpu_drain s) = events s"
  by (simp add: gpu_drain_def events_def)

lemma host_call [simp]: "host (call sched ev s) = host s"
  by (simp add: call_def)

lemma events_call [simp]: "events (call sched ev s) = events s @ [ev]"
  by (simp add: call_def)

lemmas call_fields [simp] = same_host[OF host_call]

lemma host_fold_call [simp]: "host (fold (\<lambda>x. call sched (g x)) xs s) = host s"
  by (induction xs arbitrary: s) simp_all

lemma events_fold_call [simp]:
  "events (fold (\<lambda>x. call sched (g x)) xs s) = events s @ map g xs"
  by (induction xs arbitrary: s) simp_all

lemmas fold_call_fields [simp] = same_host[OF host_fold_call]

lemma host_run_calls: "host (final (run_calls sched cs s)) = host s"
  by (induction cs arbitrary: s) (auto simp: final_def Let_def)

lemma run_calls_Inr:
  "run_calls sched cs s = Inr s' \<Longrightarrow> host s' = host s \<and> events s' = events s @ map fst cs"
proof (induction cs arbitrary: s)
  case Nil then show ?case by simp
next
  case (Cons c cs)
  obtain ev ok err where c: "c = (ev, ok, err)" by (cases c)
  with Cons.prems have "ok" and rest: "run_calls sched cs (call sched ev s) = Inr s'"
    by (auto simp: Let_def split: if_splits)
  from Cons.IH[OF rest] c show ?case by simp
qed

lemma host_device_wait_idle [simp]: "host (device_wait_idle sched s) = host s"
  by (simp add: device_wait_idle_def)

lemma events_device_wait_idle [simp]:
  "events (device_wait_idle sched s) = events s @ [vkDeviceWaitIdle]"
  by (simp add: device_wait_idle_def)

lemmas device_wait_idle_fields [simp] = same_host[OF host_device_wait_idle]

lemma host_get_framebuffer_size [simp]: "host (get_framebuffer_size sched s) = host s"
  by (simp add: get_framebuffer_size_def)

lemma events_get_framebuffer_size [simp]:
  "events (get_framebuffer_size sched s) =
     events s @ [glfwGetFramebufferSize (fst (framebufferSize s)) (snd (framebufferSize s))]"
  by (simp add: get_framebuffer_size_def)

lemmas get_framebuffer_size_fields [simp] = same_host[OF host_get_framebuffer_size]

lemma length_fold_signal [simp]:
  "length (fold (\<lambda>f fs. fs[f := True]) xs fs) = length fs"
  by (induction xs arbitrary: fs) simp_all

lemma gpu_drain_advances: "advances Q s (gpu_drain s)"
proof -
  have "in_flight_inv (gpu_drain s)" if "in_flight_inv s"
    using that by (simp add: in_flight_inv_def gpu_drain_def)
  then show ?thesis
    by (simp add: advances_def events_def) (simp add: gpu_drain_def)
qed

lemma device_wait_idle_advances: "Q vkDeviceWaitIdle \<Longrightarrow> advances Q s (device_wait_idle sched s)"
  unfolding device_wait_idle_def
  by (rule advances_trans[OF gpu_advance_advances[of Q s sched]],
      rule advances_trans[OF gpu_drain_advances]) (simp add: log_call_advances)

lemma get_framebuffer_size_advances:
  "(\<And>w h. Q (glfwGetFramebufferSize w h)) \<Longrightarrow> advances Q s (get_framebuffer_size sched s)"
  unfolding get_framebuffer_size_def by (rule call_advances)

lemma fold_call_advances:
  "(\<And>x. Q (g x)) \<Longrightarrow> advances Q s (fold (\<lambda>x. call sched (g x)) xs s)"
  by (rule fold_advances) (simp add: call_advances)

subsection \<open>The parts of the rebuild advance\<close>

lemma final_simps [simp]: "final (Inr s) = s" "final (Inl (e, s)) = s"
  by (simp_all add: final_def)

lemma adv_call: "advances Q s x \<Longrightarrow> Q ev \<Longrightarrow> advances Q s (call sched ev x)"
  by (erule advances_trans) (rule call_advances)

lemma adv_size: "advances Q s x \<Longrightarrow> (\<And>w h. Q (glfwGetFramebufferSize w h)) \<Longrightarrow>
    advances Q s (get_framebuffer_size sched x)"
  by (erule advances_trans) (rule get_framebuffer_size_advances)

lemma adv_idle: "advances Q s x \<Longrightarrow> Q vkDeviceWaitIdle \<Longrightarrow> advances Q s (device_wait_idle sched x)"
  by (erule advances_trans) (rule device_wait_idle_advances)

lemma adv_fold_call:
  "advances Q s x \<Longrightarrow> (\<And>y. Q (g y)) \<Longrightarrow> advances Q s (fold (\<lambda>y. call sched (g y)) ys x)"
  by (erule advances_trans) (rule fold_call_advances)

lemma adv_run_calls:
  "advances Q s x \<Longrightarrow> (\<And>ev ok err. (ev, ok, err) \<in> set cs \<Longrightarrow> Q ev) \<Longrightarrow>
   advances Q s (final (run_calls sched cs x))"
  by (erule advances_trans) (rule run_calls_advances)

lemma adv_andThen:
  assumes "advances Q s (final r)"
    and "\<And>s1. advances Q s s1 \<Longrightarrow> advances Q s (final (f s1))"
  shows "advances Q s (final (andThen r f))"
  using assms by (cases r) (auto simp: andThen_def)

lemma adv_updates:
  assumes "advances Q s x"
  shows "advances Q s (x\<lparr>m_currentSwapChain := v1\<rparr>)"
    and "advances Q s (x\<lparr>next_handle := v2\<rparr>)"
    and "advances Q s (x\<lparr>m_vSwapChainImages := v3\<rparr>)"
    and "advances Q s (x\<lparr>m_swapChainImageFormat := v4\<rparr>)"
    and "advances Q s (x\<lparr>m_swapChainExtent := v5\<rparr>)"
    and "advances Q s (x\<lparr>m_vSwapChainImageViews := v6\<rparr>)"
    and "advances Q s (x\<lparr>m_vSwapChainFramebuffers := v7\<rparr>)"
    and "advances Q s (x\<lparr>m_vCommandBuffers := v8\<rparr>)"
  by (rule advances_trans[OF assms], simp add: advances_def events_def in_flight_inv_def)+

lemmas adv_rules = adv_call adv_size adv_idle adv_fold_call adv_run_calls adv_updates

lemma wait_event_advances:
  assumes "advances Q s x" "Q glfwWaitEvents"
  shows "advances Q s (window_event_effect ev (call sched glfwWaitEvents x))"
proof -
  let ?y = "call sched glfwWaitEvents x"
  have c: "advances Q x ?y" using assms(2) by (rule call_advances)
  have "advances Q x (window_event_effect ev ?y)"
  proof (cases ev)
    case OtherEvent
    with c show ?thesis by simp
  next
    case (FramebufferResized w h)
    have inv: "in_flight_inv x \<longrightarrow> in_flight_inv ?y" and sub: "set (dev_pending ?y) \<subseteq> set (dev_pending x)"
      using c by (simp_all add: advances_def)
    have "events (window_event_effect ev ?y) = events x @ [glfwWaitEvents]"
      unfolding FramebufferResized by simp
    then show ?thesis
      unfolding FramebufferResized advances_def
      using inv sub assms(2) by (simp add: in_flight_inv_def)
  qed
  with assms(1) show ?thesis by (rule advances_trans)
qed

lemma minimised_loop_advances:
  assumes "\<And>w h. Q (glfwGetFramebufferSize w h)" "Q glfwWaitEvents"
  shows "advances Q s x \<Longrightarrow> advances Q s (final (minimised_loop sched evs w h x))"
proof (induction evs arbitrary: w h x)
  case Nil
  then show ?case using assms by (auto intro!: adv_rules)
next
  case (Cons ev rest)
  show ?case
  proof (cases "w = 0 \<or> h = 0")
    case False
    with Cons.prems show ?thesis by simp
  next
    case True
    have "advances Q s (window_event_effect ev (call sched glfwWaitEvents (get_framebuffer_size sched x)))"
      using Cons.prems assms by (intro wait_event_advances adv_size)
    from Cons.IH[OF this] True show ?thesis by (simp add: Let_def)
  qed
qed

lemma CleanupSwapChain_advances:
  assumes "advances Q s x" "\<And>e. is_teardown e \<Longrightarrow> Q e"
  shows "advances Q s (CleanupSwapChain sched x)"
  unfolding CleanupSwapChain_def Let_def
  using assms by (intro adv_rules) (simp_all add: is_teardown_def)

lemma events_CleanupSwapChain:
  "events (CleanupSwapChain sched s) = events s @ cleanup_events s"
  by (simp add: CleanupSwapChain_def Let_def cleanup_events_def)

lemma host_CleanupSwapChain: "host (CleanupSwapChain sched s) = host s"
  by (simp add: CleanupSwapChain_def Let_def)

lemma CreateSwapChain_advances:
  assumes "advances (creation_event old) s x" "m_oldSwapChain s = old"
  shows "advances (creation_event old) s (final (CreateSwapChain sched a x))"
proof -
  from assms have old: "m_oldSwapChain x = old" by (simp add: advances_def)
  show ?thesis
    unfolding CreateSwapChain_def Let_def ReportError_def
    using assms(1) old
    by (auto split: option.splits intro!: adv_rules
          simp: creation_event_def is_construction_def)
qed

lemma CreateImageViews_advances:
  assumes "advances (creation_event old) s x"
  shows "advances (creation_event old) s (final (CreateImageViews sched a x))"
  unfolding CreateImageViews_def Let_def
  using assms by (intro adv_rules) (auto simp: creation_event_def is_construction_def)

lemma CreateRenderPass_advances:
  assumes "advances (creation_event old) s x"
  shows "advances (creation_event old) s (final (CreateRenderPass sched a x))"
  unfolding CreateRenderPass_def
  using assms by (intro adv_rules) (auto simp: creation_event_def is_construction_def)

lemma CreateGraphicsPipeline_advances:
  assumes "advances (creation_event old) s x"
  shows "advances (creation_event old) s (final (CreateGraphicsPipeline sched a x))"
  unfolding CreateGraphicsPipeline_def
  using assms
  by (intro adv_andThen adv_rules) (auto simp: creation_event_def is_construction_def intro!: adv_rules)

lemma CreateFramebuffers_advances:
  assumes "advances (creation_event old) s x"
  shows "advances (creation_event old) s (final (CreateFramebuffers sched a x))"
  unfolding CreateFramebuffers_def Let_def
  using assms by (intro adv_rules) (auto simp: creation_event_def is_construction_def)

lemma CreateCommandBuffers_advances:
  assumes "advances (creation_event old) s x"
  shows "advances (creation_event old) s (final (CreateCommandBuffers sched a x))"
  unfolding CreateCommandBuffers_def Let_def
  using assms by (intro adv_rules) (auto simp: creation_event_def is_construction_def)

subsection \<open>What the parts of the rebuild log and leave behind\<close>

lemma andThen_Inr: "andThen r f = Inr z \<longleftrightarrow> (\<exists>y. r = Inr y \<and> f y = Inr z)"
  by (cases r) (auto simp: andThen_def)

lemma andThen_Inl_simp [simp]: "andThen (Inl e) f = Inl e"
  by (simp add: andThen_def)

lemma andThen_Inr_simp [simp]: "andThen (Inr s) f = f s"
  by (simp add: andThen_def)

lemma advances_events:
  "advances Q s s' \<Longrightarrow> \<exists>evs. events s' = events s @ evs \<and> (\<forall>e \<in> set evs. Q e)"
  unfolding advances_def by blast

lemma cleanup_events_cong:
  "m_vSwapChainFramebuffers s' = m_vSwapChainFramebuffers s \<Longrightarrow>
   m_vCommandBuffers s' = m_vCommandBuffers s \<Longrightarrow>
   m_vSwapChainImageViews s' = m_vSwapChainImageViews s \<Longrightarrow>
   m_oldSwapChain s' = m_oldSwapChain s \<Longrightarrow>
   m_currentSwapChain s' = m_currentSwapChain s \<Longrightarrow>
   cleanup_events s' = cleanup_events s"
  by (simp add: cleanup_events_def)

lemma events_window_event_effect [simp]: "events (window_event_effect ev s) = events s"
  by (cases ev) (simp_all add: events_def)

lemma cleanup_events_window_event_effect [simp]:
  "cleanup_events (window_event_effect ev s) = cleanup_events s"
  by (cases ev) (simp_all add: cleanup_events_def)

lemma cleanup_events_call [simp]: "cleanup_events (call sched ev s) = cleanup_events s"
  by (simp add: cleanup_events_def)

lemma cleanup_events_size [simp]: "cleanup_events (get_framebuffer_size sched s) = cleanup_events s"
  by (simp add: cleanup_events_def)

lemma cleanup_events_idle [simp]: "cleanup_events (device_wait_idle sched s) = cleanup_events s"
  by (simp add: cleanup_events_def)

lemma framebufferSize_window [simp]:
  "framebufferSize (window_event_effect OtherEvent s) = framebufferSize s"
  by simp

text \<open>The waiting loop when it ends: only polling calls, and a size without a zero was seen.\<close>

lemma minimised_loop_Inr:
  "minimised_loop sched evs w h x = Inr y \<Longrightarrow>
     cleanup_events y = cleanup_events x
     \<and> (\<exists>ps. events y = events x @ ps \<and> (\<forall>e \<in> set ps. is_poll e)
           \<and> ((w \<noteq> 0 \<and> h \<noteq> 0 \<and> ps = [])
               \<or> (\<exists>w' h'. w' \<noteq> 0 \<and> h' \<noteq> 0 \<and> glfwGetFramebufferSize w' h' \<in> set ps)))"
proof (induction evs arbitrary: w h x)
  case Nil
  then show ?case by (auto split: if_splits)
next
  case (Cons ev rest)
  show ?case
  proof (cases "w = 0 \<or> h = 0")
    case False
    with Cons.prems show ?thesis by simp
  next
    case True
    let ?x1 = "get_framebuffer_size sched x"
    let ?x2 = "window_event_effect ev (call sched glfwWaitEvents ?x1)"
    let ?w1 = "fst (framebufferSize x)" and ?h1 = "snd (framebufferSize x)"
    from True Cons.prems have rec: "minimised_loop sched rest ?w1 ?h1 ?x2 = Inr y"
      by (simp add: Let_def)
    from Cons.IH[OF rec] obtain ps where ps: "cleanup_events y = cleanup_events ?x2"
      "events y = events ?x2 @ ps" "\<forall>e \<in> set ps. is_poll e"
      "(?w1 \<noteq> 0 \<and> ?h1 \<noteq> 0 \<and> ps = [])
        \<or> (\<exists>w' h'. w' \<noteq> 0 \<and> h' \<noteq> 0 \<and> glfwGetFramebufferSize w' h' \<in> set ps)"
      by blast
    let ?ps = "glfwGetFramebufferSize ?w1 ?h1 # glfwWaitEvents # ps"
    have "events y = events x @ ?ps" using ps(2) by simp
    moreover have "\<forall>e \<in> set ?ps. is_poll e" using ps(3) by (simp add: is_poll_def)
    moreover have "\<exists>w' h'. w' \<noteq> 0 \<and> h' \<noteq> 0 \<and> glfwGetFramebufferSize w' h' \<in> set ?ps"
      using ps(4) by auto
    moreover have "cleanup_events y = cleanup_events x" using ps(1) by simp
    ultimately show ?thesis by blast
  qed
qed

lemma minimised_loop_Inl:
  "minimised_loop sched evs w h x = Inl (e, y) \<Longrightarrow>
     e = BlocksForever \<and> (\<exists>ps. events y = events x @ ps \<and> (\<forall>e \<in> set ps. is_poll e))"
proof (induction evs arbitrary: w h x)
  case Nil
  then show ?case by (auto split: if_splits simp: is_poll_def)
next
  case (Cons ev rest)
  show ?case
  proof (cases "w = 0 \<or> h = 0")
    case False
    with Cons.prems show ?thesis by simp
  next
    case True
    let ?x1 = "get_framebuffer_size sched x"
    let ?x2 = "window_event_effect ev (call sched glfwWaitEvents ?x1)"
    let ?w1 = "fst (framebufferSize x)" and ?h1 = "snd (framebufferSize x)"
    from True Cons.prems have rec: "minimised_loop sched rest ?w1 ?h1 ?x2 = Inl (e, y)"
      by (simp add: Let_def)
    from Cons.IH[OF rec] obtain ps where ps: "e = BlocksForever"
      "events y = events ?x2 @ ps" "\<forall>e \<in> set ps. is_poll e"
      by blast
    let ?ps = "glfwGetFramebufferSize ?w1 ?h1 # glfwWaitEvents # ps"
    have "events y = events x @ ?ps" using ps(2) by simp
    moreover have "\<forall>e \<in> set ?ps. is_poll e" using ps(3) by (simp add: is_poll_def)
    ultimately show ?thesis using ps(1) by blast
  qed
qed

text \<open>What a successful creation leaves behind.\<close>

lemma CreateSwapChain_Inr:
  "CreateSwapChain sched a x = Inr y \<Longrightarrow>
     length (m_vSwapChainImages y) = swapchainImageCount a
     \<and> (\<exists>info. vkCreateSwapchainKHR info \<in> set (drop (length (events x)) (events y)))"
  unfolding CreateSwapChain_def Let_def ReportError_def
  by (auto split: option.splits if_splits simp: fresh_handles_def)

lemma run_calls_fields:
  assumes "run_calls sched cs s = Inr s'"
  shows "m_vSwapChainImages s' = m_vSwapChainImages s"
    and "m_vSwapChainImageViews s' = m_vSwapChainImageViews s"
    and "m_vSwapChainFramebuffers s' = m_vSwapChainFramebuffers s"
    and "m_vCommandBuffers s' = m_vCommandBuffers s"
proof -
  from run_calls_Inr[OF assms] have h: "host s' = host s" by simp
  from same_host[OF h] show "m_vSwapChainImages s' = m_vSwapChainImages s"
    and "m_vSwapChainImageViews s' = m_vSwapChainImageViews s"
    and "m_vSwapChainFramebuffers s' = m_vSwapChainFramebuffers s"
    and "m_vCommandBuffers s' = m_vCommandBuffers s" by simp_all
qed

lemma CreateImageViews_Inr:
  assumes "CreateImageViews sched a x = Inr y"
  shows "m_vSwapChainImages y = m_vSwapChainImages x"
    and "length (m_vSwapChainImageViews y) = length (m_vSwapChainImages x)"
  using run_calls_fields[OF assms[unfolded CreateImageViews_def Let_def]]
  by (simp_all add: fresh_handles_def)

lemma CreateRenderPass_Inr:
  assumes "CreateRenderPass sched a x = Inr y"
  shows "m_vSwapChainImages y = m_vSwapChainImages x"
    and "m_vSwapChainImageViews y = m_vSwapChainImageViews x"
  using run_calls_fields[OF assms[unfolded CreateRenderPass_def]]
  by simp_all

lemma CreateGraphicsPipeline_Inr:
  assumes "CreateGraphicsPipeline sched a x = Inr y"
  shows "m_vSwapChainImages y = m_vSwapChainImages x"
    and "m_vSwapChainImageViews y = m_vSwapChainImageViews x"
proof -
  from assms[unfolded CreateGraphicsPipeline_def andThen_Inr] obtain ya where
    ya: "run_calls sched
          [(ReadFile ''shaders/vert.spv'', vertShaderReadable a, RuntimeError ''Failed to open file!''),
           (ReadFile ''shaders/frag.spv'', fragShaderReadable a, RuntimeError ''Failed to open file!''),
           (vkCreateShaderModule, createVertShaderModuleResult a = VK_SUCCESS,
            RuntimeError ''Failed to create shader module!''),
           (vkCreateShaderModule, createFragShaderModuleResult a = VK_SUCCESS,
            RuntimeError ''Failed to create shader module!''),
           (vkCreatePipelineLayout, createPipelineLayoutResult a = VK_SUCCESS,
            RuntimeError ''Failed to create pipeline layout!''),
           (vkCreateGraphicsPipelines, createGraphicsPipelinesResult a = VK_SUCCESS,
            RuntimeError ''Failed to create graphics pipeline!'')] x = Inr ya"
    and y: "y = call sched vkDestroyShaderModule (call sched vkDestroyShaderModule ya)"
    by auto
  from run_calls_fields[OF ya] y show "m_vSwapChainImages y = m_vSwapChainImages x"
    and "m_vSwapChainImageViews y = m_vSwapChainImageViews x" by simp_all
qed

lemma CreateFramebuffers_Inr:
  assumes "CreateFramebuffers sched a x = Inr y"
  shows "m_vSwapChainImages y = m_vSwapChainImages x"
    and "m_vSwapChainImageViews y = m_vSwapChainImageViews x"
    and "length (m_vSwapChainFramebuffers y) = length (m_vSwapChainImageViews x)"
  using run_calls_fields[OF assms[unfolded CreateFramebuffers_def Let_def]]
  by (simp_all add: fresh_handles_def)

lemma CreateCommandBuffers_Inr:
  assumes "CreateCommandBuffers sched a x = Inr y"
  shows "m_vSwapChainImages y = m_vSwapChainImages x"
    and "m_vSwapChainImageViews y = m_vSwapChainImageViews x"
    and "m_vSwapChainFramebuffers y = m_vSwapChainFramebuffers x"
    and "length (m_vCommandBuffers y) = length (m_vSwapChainFramebuffers x)"
  using run_calls_fields[OF assms[unfolded CreateCommandBuffers_def Let_def]]
  by (simp_all add: fresh_handles_def)

lemma RebuildSwapChain_chain:
  "RebuildSwapChain sched a s =
     creation_chain sched a (CleanupSwapChain sched (device_wait_idle sched s))"
  by (simp add: RebuildSwapChain_def creation_chain_def Let_def)

lemma creation_chain_advances:
  assumes "advances (creation_event old) s x" "m_oldSwapChain s = old"
  shows "advances (creation_event old) s (final (creation_chain sched a x))"
  unfolding creation_chain_def
  using assms
  by (intro adv_andThen CreateSwapChain_advances CreateImageViews_advances
        CreateRenderPass_advances CreateGraphicsPipeline_advances CreateFramebuffers_advances
        CreateCommandBuffers_advances)

lemma creation_chain_Inr:
  assumes "creation_chain sched a x = Inr y"
  shows "length (m_vSwapChainImages y) = swapchainImageCount a"
    and "length (m_vSwapChainImageViews y) = swapchainImageCount a"
    and "length (m_vSwapChainFramebuffers y) = swapchainImageCount a"
    and "length (m_vCommandBuffers y) = swapchainImageCount a"
    and "\<exists>info. vkCreateSwapchainKHR info \<in> set (drop (length (events x)) (events y))"
proof -
  from assms obtain y3 y4 y5 y6 y7 where
    c3: "CreateSwapChain sched a x = Inr y3" and
    c4: "CreateImageViews sched a y3 = Inr y4" and
    c5: "CreateRenderPass sched a y4 = Inr y5" and
    c6: "CreateGraphicsPipeline sched a y5 = Inr y6" and
    c7: "CreateFramebuffers sched a y6 = Inr y7" and
    c8: "CreateCommandBuffers sched a y7 = Inr y"
    unfolding creation_chain_def andThen_Inr by blast
  note f3 = CreateSwapChain_Inr[OF c3]
  note f4 = CreateImageViews_Inr[OF c4]
  note f5 = CreateRenderPass_Inr[OF c5]
  note f6 = CreateGraphicsPipeline_Inr[OF c6]
  note f7 = CreateFramebuffers_Inr[OF c7]
  note f8 = CreateCommandBuffers_Inr[OF c8]
  show "length (m_vSwapChainImages y) = swapchainImageCount a"
    using f3 f4 f5 f6 f7 f8 by simp
  show "length (m_vSwapChainImageViews y) = swapchainImageCount a"
    using f3 f4 f5 f6 f7 f8 by simp
  show "length (m_vSwapChainFramebuffers y) = swapchainImageCount a"
    using f3 f4 f5 f6 f7 f8 by simp
  show "length (m_vCommandBuffers y) = swapchainImageCount a"
    using f3 f4 f5 f6 f7 f8 by simp
  from f3 obtain info where info: "vkCreateSwapchainKHR info \<in> set (drop (length (events x)) (events y3))"
    by blast
  have "advances (creation_event None) y3 (final (andThen (CreateImageViews sched a y3) (\<lambda>s4.
     andThen (CreateRenderPass sched a s4) (\<lambda>s5.
     andThen (CreateGraphicsPipeline sched a s5) (\<lambda>s6.
     andThen (CreateFramebuffers sched a s6) (\<lambda>s7.
     CreateCommandBuffers sched a s7))))))"
    by (intro adv_andThen CreateImageViews_advances
        CreateRenderPass_advances CreateGraphicsPipeline_advances CreateFramebuffers_advances
        CreateCommandBuffers_advances advances_refl)
  with c4 c5 c6 c7 c8 have "advances (creation_event None) y3 y" by simp
  then obtain more where "events y = events y3 @ more" by (auto simp: advances_def)
  with info show "\<exists>info. vkCreateSwapchainKHR info \<in> set (drop (length (events x)) (events y))"
    by (auto simp: drop_append dest: in_set_dropD)
qed

text \<open>The rebuild after the wait: idle, teardown, then construction.\<close>

lemma RebuildSwapChain_events:
  "\<exists>cr. events (final (RebuildSwapChain sched a s))
           = events s @ vkDeviceWaitIdle # cleanup_events s @ cr
        \<and> (\<forall>e \<in> set cr. creation_event (m_oldSwapChain s) e)
        \<and> (\<not> isl (RebuildSwapChain sched a s) \<longrightarrow> (\<exists>info. vkCreateSwapchainKHR info \<in> set cr))"
proof -
  let ?s2 = "CleanupSwapChain sched (device_wait_idle sched s)"
  have h2: "host ?s2 = host s" by (simp add: host_CleanupSwapChain)
  have old: "m_oldSwapChain ?s2 = m_oldSwapChain s" using same_host(5)[OF h2] .
  have ev2: "events ?s2 = events s @ vkDeviceWaitIdle # cleanup_events s"
    by (simp add: events_CleanupSwapChain)
  have "advances (creation_event (m_oldSwapChain s)) ?s2 (final (creation_chain sched a ?s2))"
    by (rule creation_chain_advances) (simp_all add: advances_refl old)
  then obtain cr where cr: "events (final (creation_chain sched a ?s2)) = events ?s2 @ cr"
    "\<forall>e \<in> set cr. creation_event (m_oldSwapChain s) e"
    by (auto simp: advances_def)
  have "\<exists>info. vkCreateSwapchainKHR info \<in> set cr" if "\<not> isl (creation_chain sched a ?s2)"
  proof -
    from that obtain y where y: "creation_chain sched a ?s2 = Inr y"
      by (cases "creation_chain sched a ?s2") auto
    from creation_chain_Inr(5)[OF y] cr(1) y show ?thesis by simp
  qed
  with cr ev2 show ?thesis
    unfolding RebuildSwapChain_chain by auto
qed

lemma RebuildSwapChain_advances:
  assumes "advances (rebuild_event old) s x" "m_oldSwapChain s = old"
  shows "advances (rebuild_event old) s (final (RebuildSwapChain sched a x))"
proof -
  let ?s2 = "CleanupSwapChain sched (device_wait_idle sched x)"
  have a2: "advances (rebuild_event old) s ?s2"
    using assms(1) by (intro CleanupSwapChain_advances adv_idle) (simp_all add: rebuild_event_def)
  then have old: "m_oldSwapChain ?s2 = old" using assms(2) by (simp add: advances_def)
  have "advances (creation_event old) ?s2 (final (creation_chain sched a ?s2))"
    by (rule creation_chain_advances) (simp_all only: advances_refl old)
  then have "advances (rebuild_event old) ?s2 (final (creation_chain sched a ?s2))"
    by (rule advances_mono) (simp add: rebuild_event_def)
  with a2 show ?thesis
    unfolding RebuildSwapChain_chain by (rule advances_trans)
qed

lemma RebuildSwapChain_Inr:
  assumes "RebuildSwapChain sched a x = Inr y"
  shows "length (m_vSwapChainImages y) = swapchainImageCount a"
    and "length (m_vSwapChainImageViews y) = swapchainImageCount a"
    and "length (m_vSwapChainFramebuffers y) = swapchainImageCount a"
    and "length (m_vCommandBuffers y) = swapchainImageCount a"
  using creation_chain_Inr(1-4)[OF assms[unfolded RebuildSwapChain_chain]] by simp_all

subsection \<open>The rebuild as a whole\<close>

lemma RecreateSwapChain_advances:
  "advances (recreate_event (m_oldSwapChain s)) s (final (RecreateSwapChain sched a s))"
proof -
  let ?Q = "recreate_event (m_oldSwapChain s)"
  let ?s1 = "get_framebuffer_size sched (call sched Enter_RecreateSwapChain s)"
  have a1: "advances ?Q s ?s1"
    by (intro adv_rules advances_refl) (simp_all add: recreate_event_def is_poll_def)
  have loop: "advances ?Q s (final (minimised_loop sched evs w h ?s1))" for evs w h
    by (rule minimised_loop_advances[OF _ _ a1]) (simp_all add: recreate_event_def is_poll_def)
  have rb: "advances ?Q s (final (RebuildSwapChain sched a y))" if "advances ?Q s y" for y
  proof -
    from that have old: "m_oldSwapChain y = m_oldSwapChain s" by (simp add: advances_def)
    have "advances (rebuild_event (m_oldSwapChain s)) y (final (RebuildSwapChain sched a y))"
      by (rule RebuildSwapChain_advances) (simp_all only: advances_refl old)
    then have "advances ?Q y (final (RebuildSwapChain sched a y))"
      by (rule advances_mono) (simp add: recreate_event_def)
    with that show ?thesis by (rule advances_trans)
  qed
  show ?thesis
    unfolding RecreateSwapChain_def Let_def
    by (rule adv_andThen[OF loop]) (rule rb)
qed

text \<open>The calls of one \<^verbatim>\<open>RecreateSwapChain\<close>, in order.\<close>

lemma RecreateSwapChain_events:
  fixes sched a s
  defines "r \<equiv> RecreateSwapChain sched a s"
  shows "\<exists>polls rb.
     events (final r)
       = events s @ Enter_RecreateSwapChain
           # glfwGetFramebufferSize (fst (framebufferSize s)) (snd (framebufferSize s))
           # polls @ rb
     \<and> (\<forall>e \<in> set polls. is_poll e)
     \<and> ((rb = [] \<and> (\<exists>y. r = Inl (BlocksForever, y)))
        \<or> ((\<exists>w h. w \<noteq> 0 \<and> h \<noteq> 0
               \<and> glfwGetFramebufferSize w h
                   \<in> set (glfwGetFramebufferSize (fst (framebufferSize s)) (snd (framebufferSize s))
                          # polls))
           \<and> (\<exists>cr. rb = vkDeviceWaitIdle # cleanup_events s @ cr
                 \<and> (\<forall>e \<in> set cr. creation_event (m_oldSwapChain s) e)
                 \<and> (\<not> isl r \<longrightarrow> (\<exists>info. vkCreateSwapchainKHR info \<in> set cr)))))"
proof -
  let ?w0 = "fst (framebufferSize s)" and ?h0 = "snd (framebufferSize s)"
  let ?s1 = "get_framebuffer_size sched (call sched Enter_RecreateSwapChain s)"
  let ?L = "minimised_loop sched (waitEvents a) ?w0 ?h0 ?s1"
  have r: "r = andThen ?L (RebuildSwapChain sched a)"
    by (simp add: r_def RecreateSwapChain_def Let_def)
  have ev1: "events ?s1 = events s @ [Enter_RecreateSwapChain, glfwGetFramebufferSize ?w0 ?h0]"
    by simp
  show ?thesis
  proof (cases ?L)
    case (Inl p)
    obtain e y where p: "p = (e, y)" by (cases p)
    from minimised_loop_Inl[OF Inl[unfolded p]] obtain ps where ps: "e = BlocksForever"
      "events y = events ?s1 @ ps" "\<forall>e \<in> set ps. is_poll e" by blast
    have "r = Inl (BlocksForever, y)" using r Inl p ps(1) by simp
    moreover from this have "events (final r) = events s @ Enter_RecreateSwapChain
           # glfwGetFramebufferSize ?w0 ?h0 # ps @ []" using ps(2) ev1 by simp
    ultimately show ?thesis
      using ps(3) by (intro exI[of _ ps] exI[of _ "[]"]) simp
  next
    case (Inr y)
    from minimised_loop_Inr[OF Inr] obtain ps where ps: "cleanup_events y = cleanup_events ?s1"
      "events y = events ?s1 @ ps" "\<forall>e \<in> set ps. is_poll e"
      "(?w0 \<noteq> 0 \<and> ?h0 \<noteq> 0 \<and> ps = [])
        \<or> (\<exists>w' h'. w' \<noteq> 0 \<and> h' \<noteq> 0 \<and> glfwGetFramebufferSize w' h' \<in> set ps)"
      by blast
    have "advances (\<lambda>e. True) ?s1 (final ?L)"
      by (rule minimised_loop_advances) (simp_all add: advances_refl)
    with Inr have old: "m_oldSwapChain y = m_oldSwapChain s" by (simp add: advances_def)
    have ce: "cleanup_events y = cleanup_events s" using ps(1) by simp
    have r': "r = RebuildSwapChain sched a y" using r Inr by simp
    from RebuildSwapChain_events[of sched a y] obtain cr where cr:
      "events (final r) = events y @ vkDeviceWaitIdle # cleanup_events y @ cr"
      "\<forall>e \<in> set cr. creation_event (m_oldSwapChain y) e"
      "\<not> isl r \<longrightarrow> (\<exists>info. vkCreateSwapchainKHR info \<in> set cr)"
      unfolding r' by blast
    let ?rb = "vkDeviceWaitIdle # cleanup_events s @ cr"
    have "events (final r) = events s @ Enter_RecreateSwapChain
           # glfwGetFramebufferSize ?w0 ?h0 # ps @ ?rb"
      using cr(1) ps(2) ev1 ce by simp
    moreover have "\<exists>w h. w \<noteq> 0 \<and> h \<noteq> 0
        \<and> glfwGetFramebufferSize w h \<in> set (glfwGetFramebufferSize ?w0 ?h0 # ps)"
    proof (rule disjE[OF ps(4)])
      assume "?w0 \<noteq> 0 \<and> ?h0 \<noteq> 0 \<and> ps = []"
      then show ?thesis by (intro exI[of _ ?w0] exI[of _ ?h0]) simp
    next
      assume "\<exists>w' h'. w' \<noteq> 0 \<and> h' \<noteq> 0 \<and> glfwGetFramebufferSize w' h' \<in> set ps"
      then obtain w' h' where "w' \<noteq> 0" "h' \<noteq> 0" "glfwGetFramebufferSize w' h' \<in> set ps"
        by blast
      then show ?thesis by (intro exI[of _ w'] exI[of _ h']) simp
    qed
    moreover have "\<exists>cr'. ?rb = vkDeviceWaitIdle # cleanup_events s @ cr'
                 \<and> (\<forall>e \<in> set cr'. creation_event (m_oldSwapChain s) e)
                 \<and> (\<not> isl r \<longrightarrow> (\<exists>info. vkCreateSwapchainKHR info \<in> set cr'))"
      using cr(2,3) old by (intro exI[of _ cr]) simp
    ultimately show ?thesis
      using ps(3) by (intro exI[of _ ps] exI[of _ ?rb]) blast
  qed
qed

lemma advances_new_events:
  "advances Q s (final r) \<Longrightarrow>
     events (final r) = events s @ new_events s r \<and> (\<forall>e \<in> set (new_events s r). Q e)
     \<and> (m_framebufferResized (final r) \<longrightarrow>
          m_framebufferResized s \<or> glfwWaitEvents \<in> set (new_events s r))"
  by (auto simp: advances_def new_events_def)

subsection \<open>The fence calls\<close>

text \<open>The fence calls of \<^verbatim>\<open>DrawFrame\<close>.\<close>

lemma events_gpu_finish [simp]: "events (gpu_finish f s) = events s"
  by (simp add: events_def)

lemma host_update_dev [simp]:
  "host (s\<lparr>dev_fences := v\<rparr>) = host s"
  "host (s\<lparr>dev_pending := w\<rparr>) = host s"
  by (simp_all add: host_def)

lemma wait_for_fences_advances:
  assumes "Q (vkWaitForFences f)"
  shows "advances Q s (final (wait_for_fences sched f s))"
proof -
  let ?s1 = "gpu_advance sched s"
  have a1: "advances Q s ?s1" by (rule gpu_advance_advances)
  have a2: "advances Q s (log_call (vkWaitForFences f) ?s1)"
    by (rule advances_trans[OF a1]) (rule log_call_advances, rule assms)
  have a3: "advances Q s (log_call (vkWaitForFences f) (gpu_finish f ?s1))"
    by (rule advances_trans[OF a1], rule advances_trans[OF gpu_finish_advances])
       (rule log_call_advances, rule assms)
  show ?thesis
    using a2 a3 by (simp add: wait_for_fences_def Let_def)
qed

lemma wait_for_fences_host: "host (final (wait_for_fences sched f s)) = host s"
  by (simp add: wait_for_fences_def Let_def)

lemma wait_for_fences_events:
  "events (final (wait_for_fences sched f s)) = events s @ [vkWaitForFences f]"
  by (simp add: wait_for_fences_def Let_def)

lemma wait_for_fences_Inl: "wait_for_fences sched f s = Inl (e, y) \<Longrightarrow> e = BlocksForever"
  by (auto simp: wait_for_fences_def Let_def split: if_splits)

lemma wait_for_fences_quiet:
  assumes "wait_for_fences sched f s = Inr y" "in_flight_inv s"
  shows "f \<notin> set (dev_pending y)"
proof -
  let ?s1 = "gpu_advance sched s"
  have inv1: "in_flight_inv ?s1"
    using gpu_advance_advances[of "\<lambda>e. True" s sched] assms(2) by (simp add: advances_def)
  show ?thesis
  proof (cases "f < length (dev_fences ?s1) \<and> dev_fences ?s1 ! f")
    case True
    with assms(1) have "y = log_call (vkWaitForFences f) ?s1"
      by (simp add: wait_for_fences_def Let_def)
    moreover from True inv1 have "f \<notin> set (dev_pending ?s1)"
      by (auto simp: in_flight_inv_def)
    ultimately show ?thesis by (simp add: log_call_def)
  next
    case False
    with assms(1) have "y = log_call (vkWaitForFences f) (gpu_finish f ?s1)"
      and "f \<in> set (dev_pending ?s1)"
      by (auto simp: wait_for_fences_def Let_def split: if_splits)
    moreover from inv1 have "distinct (dev_pending ?s1)" by (simp add: in_flight_inv_def)
    ultimately show ?thesis by (simp add: log_call_def gpu_finish_def)
  qed
qed

lemma reset_submit_host [simp]:
  "host (queue_submit sched result cb f (reset_fences sched f s)) = host s"
  by (simp add: queue_submit_def reset_fences_def Let_def)

lemma reset_submit_events [simp]:
  "events (queue_submit sched result cb f (reset_fences sched f s))
     = events s @ [vkResetFences f, vkQueueSubmit cb f]"
  by (simp add: queue_submit_def reset_fences_def Let_def)

lemma gpu_advance_quiet:
  assumes "f \<notin> set (dev_pending s)"
  shows "f \<notin> set (dev_pending (gpu_advance sched s))"
    and "dev_fences (gpu_advance sched s) ! f = dev_fences s ! f"
    and "length (dev_fences (gpu_advance sched s)) = length (dev_fences s)"
proof -
  have "f \<notin> set (dev_pending (fold gpu_finish xs s))
        \<and> dev_fences (fold gpu_finish xs s) ! f = dev_fences s ! f
        \<and> length (dev_fences (fold gpu_finish xs s)) = length (dev_fences s)"
    if "f \<notin> set (dev_pending s)" for xs s
    using that
  proof (induction xs arbitrary: s)
    case Nil then show ?case by simp
  next
    case (Cons x xs)
    have q: "f \<notin> set (dev_pending (gpu_finish x s))"
      using Cons.prems by (auto simp: gpu_finish_def dest: notin_set_remove1)
    have "x \<noteq> f" if "x \<in> set (dev_pending s)"
      using that Cons.prems by auto
    then have v: "dev_fences (gpu_finish x s) ! f = dev_fences s ! f"
      "length (dev_fences (gpu_finish x s)) = length (dev_fences s)"
      by (simp_all add: gpu_finish_def)
    from Cons.IH[OF q] v show ?case by simp
  qed
  from this[OF assms] show "f \<notin> set (dev_pending (gpu_advance sched s))"
    and "dev_fences (gpu_advance sched s) ! f = dev_fences s ! f"
    and "length (dev_fences (gpu_advance sched s)) = length (dev_fences s)"
    by (simp_all add: gpu_advance_def)
qed

lemma reset_submit_inv:
  assumes inv: "in_flight_inv s" and f: "f \<in> set (m_vFences s)" and q: "f \<notin> set (dev_pending s)"
  shows "in_flight_inv (queue_submit sched result cb f (reset_fences sched f s))"
proof -
  let ?s1 = "gpu_advance sched s"
  let ?s2 = "?s1\<lparr>dev_fences := (dev_fences ?s1)[f := False]\<rparr>"
  let ?s3 = "log_call (vkResetFences f) ?s2"
  let ?s4 = "gpu_advance sched ?s3"
  let ?s5 = "if result = VK_SUCCESS then ?s4\<lparr>dev_pending := dev_pending ?s4 @ [f]\<rparr> else ?s4"
  have inv1: "in_flight_inv ?s1"
    using gpu_advance_advances[of "\<lambda>e. True" s sched] inv by (simp add: advances_def)
  have h1: "host ?s1 = host s" by simp
  have f1: "f \<in> set (m_vFences ?s1)" using f same_host(14)[OF h1] by simp
  have q1: "f \<notin> set (dev_pending ?s1)" using gpu_advance_quiet(1)[OF q] .
  have "\<not> (dev_fences ?s1)[f := False] ! g" if "g \<in> set (dev_pending ?s1)" for g
  proof -
    from that q1 have "g \<noteq> f" by auto
    with that inv1 show ?thesis by (simp add: in_flight_inv_def)
  qed
  with inv1 have inv2: "in_flight_inv ?s2"
    by (simp add: in_flight_inv_def)
  have inv3: "in_flight_inv ?s3"
    using log_call_advances[of "\<lambda>e. True" "vkResetFences f" ?s2] inv2 by (simp add: advances_def)
  have q3: "f \<notin> set (dev_pending ?s3)" using q1 by (simp add: log_call_def)
  have low: "\<not> dev_fences ?s3 ! f"
    using inv1 f1 by (simp add: log_call_def in_flight_inv_def)
  have inv4: "in_flight_inv ?s4"
    using gpu_advance_advances[of "\<lambda>e. True" ?s3 sched] inv3 by (simp add: advances_def)
  have q4: "f \<notin> set (dev_pending ?s4)" and low4: "\<not> dev_fences ?s4 ! f"
    using gpu_advance_quiet(1,2)[OF q3] low by simp_all
  have h4: "host ?s4 = host s" by simp
  have f4: "f \<in> set (m_vFences ?s4)" using f same_host(14)[OF h4] by simp
  have "in_flight_inv (?s4\<lparr>dev_pending := dev_pending ?s4 @ [f]\<rparr>)"
    using inv4 q4 low4 f4 by (simp add: in_flight_inv_def)
  with inv4 have inv5: "in_flight_inv ?s5" by simp
  have "in_flight_inv (log_call (vkQueueSubmit cb f) ?s5)"
    using log_call_advances[of "\<lambda>e. True" "vkQueueSubmit cb f" ?s5] inv5 by (simp add: advances_def)
  then show ?thesis
    by (simp add: queue_submit_def reset_fences_def Let_def)
qed

lemma queue_wait_idle_advances:
  assumes "Q vkQueueWaitIdle"
  shows "advances Q s (queue_wait_idle sched q s)"
proof -
  let ?s1 = "gpu_advance sched s"
  have a1: "advances Q s ?s1" by (rule gpu_advance_advances)
  have a2: "advances Q s (log_call vkQueueWaitIdle ?s1)"
    by (rule advances_trans[OF a1]) (rule log_call_advances, rule assms)
  have a3: "advances Q s (log_call vkQueueWaitIdle (gpu_drain ?s1))"
    by (rule advances_trans[OF a1], rule advances_trans[OF gpu_drain_advances])
       (rule log_call_advances, rule assms)
  show ?thesis
    using a2 a3 by (simp add: queue_wait_idle_def Let_def)
qed

lemma queue_wait_idle_host [simp]: "host (queue_wait_idle sched q s) = host s"
  by (simp add: queue_wait_idle_def Let_def)

lemma queue_wait_idle_events [simp]:
  "events (queue_wait_idle sched q s) = events s @ [vkQueueWaitIdle]"
  by (simp add: queue_wait_idle_def Let_def)

subsection \<open>The iteration of the frame loop, case by case\<close>

lemma new_events_eq: "events (final r) = events s @ evs \<Longrightarrow> new_events s r = evs"
  by (simp add: new_events_def)

lemma advances_inv: "advances Q s s' \<Longrightarrow> in_flight_inv s \<Longrightarrow> in_flight_inv s'"
  by (simp add: advances_def)

lemma advances_quiet: "advances Q s s' \<Longrightarrow> f \<notin> set (dev_pending s) \<Longrightarrow> f \<notin> set (dev_pending s')"
  by (auto simp: advances_def)

lemma element_Some: "element xs i = Some x \<Longrightarrow> i < length xs \<and> x = xs ! i \<and> x \<in> set xs"
  by (auto simp: element_def split: if_splits)

lemma host_update_host [simp]:
  "host (s\<lparr>m_vImagesInFlight := v\<rparr>) = (host s)\<lparr>m_vImagesInFlight := v\<rparr>"
  "host (s\<lparr>m_currentFrame := c\<rparr>) = (host s)\<lparr>m_currentFrame := c\<rparr>"
  "host (s\<lparr>m_framebufferResized := b\<rparr>) = (host s)\<lparr>m_framebufferResized := b\<rparr>"
  by (simp_all add: host_def)

lemma inv_update_tracker [simp]:
  "in_flight_inv (s\<lparr>m_vImagesInFlight := v\<rparr>) = in_flight_inv s"
  by (simp add: in_flight_inv_def)

lemma inv_update_frame [simp]:
  "in_flight_inv (s\<lparr>m_currentFrame := v\<rparr>) = in_flight_inv s"
  by (simp add: in_flight_inv_def)

lemma inv_update_flag [simp]:
  "in_flight_inv (s\<lparr>m_framebufferResized := v\<rparr>) = in_flight_inv s"
  by (simp add: in_flight_inv_def)

lemma DrawFrame_unfold:
  "DrawFrame sched a s =
     (case element (m_vFences s) (unat (m_currentFrame s)) of
        None \<Rightarrow> Inl (OutOfRange, s)
      | Some frameFence \<Rightarrow>
        andThen (wait_for_fences sched frameFence s) (\<lambda>s1.
        case element (m_vImageAvailableSemaphores s1) (unat (m_currentFrame s1)) of
          None \<Rightarrow> Inl (OutOfRange, s1)
        | Some semaphore \<Rightarrow>
          let s2 = call sched (vkAcquireNextImageKHR (m_currentSwapChain s1) semaphore) s1
          in if acquireResult a = VK_ERROR_OUT_OF_DATE_KHR
             then RecreateSwapChain sched (rebuild a) s2
             else if acquireResult a \<noteq> VK_SUCCESS \<and> acquireResult a \<noteq> VK_SUBOPTIMAL_KHR
             then Inl (RuntimeError ''Failed to acquire swap chain image!'', s2)
             else
               (case element (m_vImagesInFlight s2) (acquiredImageIndex a) of
                  None \<Rightarrow> Inl (OutOfRange, s2)
                | Some inFlight \<Rightarrow>
                  andThen (case inFlight of
                             None \<Rightarrow> Inr s2
                           | Some imageFence \<Rightarrow> wait_for_fences sched imageFence s2)
                    (submit_tail sched a frameFence))))"
  unfolding DrawFrame_def submit_tail_def present_tail_def Let_def by (rule refl)

lemma new_events_flag [simp]:
  "new_events (s\<lparr>m_framebufferResized := b\<rparr>) r = new_events s r"
  by (simp add: new_events_def)

lemma present_tail_cases:
  fixes sched a s8
  defines "r \<equiv> present_tail sched a s8"
  defines "rec \<equiv> RecreateSwapChain sched (rebuild a) (s8\<lparr>m_framebufferResized := False\<rparr>)"
  obtains
    (rebuild) "presentResult a = VK_ERROR_OUT_OF_DATE_KHR \<or> presentResult a = VK_SUBOPTIMAL_KHR
               \<or> m_framebufferResized s8"
      "events (final r)
         = events s8 @ new_events s8 rec @ (if isl r then [] else [vkQueueWaitIdle])"
      "isl r = isl rec"
      "m_framebufferResized (final r) \<longrightarrow> glfwWaitEvents \<in> set (new_events s8 rec)"
      "m_currentFrame (final r) =
         (if isl r then m_currentFrame s8 else (m_currentFrame s8 + 1) mod MAX_FRAMES_IN_FLIGHT)"
      "in_flight_inv s8 \<longrightarrow> in_flight_inv (final r)"
  | (failed) "presentResult a \<noteq> VK_ERROR_OUT_OF_DATE_KHR" "presentResult a \<noteq> VK_SUBOPTIMAL_KHR"
      "\<not> m_framebufferResized s8" "presentResult a \<noteq> VK_SUCCESS"
      "r = Inl (RuntimeError ''Failed to present swap chain image!'', s8)"
  | (ok) "presentResult a = VK_SUCCESS" "\<not> m_framebufferResized s8"
      "\<not> isl r" "events (final r) = events s8 @ [vkQueueWaitIdle]"
      "m_currentFrame (final r) = (m_currentFrame s8 + 1) mod MAX_FRAMES_IN_FLIGHT"
      "\<not> m_framebufferResized (final r)"
      "in_flight_inv s8 \<longrightarrow> in_flight_inv (final r)"
proof (cases "presentResult a = VK_ERROR_OUT_OF_DATE_KHR \<or> presentResult a = VK_SUBOPTIMAL_KHR
               \<or> m_framebufferResized s8")
  case True
  let ?s = "s8\<lparr>m_framebufferResized := False\<rparr>"
  have adv: "advances (recreate_event (m_oldSwapChain ?s)) ?s (final rec)"
    unfolding rec_def by (rule RecreateSwapChain_advances)
  from advances_new_events[OF adv]
  have ev: "events (final rec) = events s8 @ new_events s8 rec"
    and flag: "m_framebufferResized (final rec) \<longrightarrow> glfwWaitEvents \<in> set (new_events s8 rec)"
    by simp_all
  from adv have frame: "m_currentFrame (final rec) = m_currentFrame s8"
    by (simp add: advances_def)
  from adv have inv: "in_flight_inv s8 \<longrightarrow> in_flight_inv (final rec)"
    by (simp add: advances_def)
  have r: "r = andThen rec (\<lambda>s9.
       let s10 = queue_wait_idle sched (m_presentQueue s9) s9
       in Inr (s10\<lparr>m_currentFrame := (m_currentFrame s10 + 1) mod MAX_FRAMES_IN_FLIGHT\<rparr>))"
    using True by (simp add: r_def rec_def present_tail_def)
  show thesis
  proof (cases rec)
    case (Inl p)
    obtain e y where p: "p = (e, y)" by (cases p)
    have r': "r = Inl (e, y)" using r Inl p by simp
    have yf: "final rec = y" using Inl p by simp
    show thesis
    proof (rule rebuild[OF True])
      show "events (final r)
              = events s8 @ new_events s8 rec @ (if isl r then [] else [vkQueueWaitIdle])"
        using r' yf ev by simp
      show "isl r = isl rec" using r' Inl by simp
      show "m_framebufferResized (final r) \<longrightarrow> glfwWaitEvents \<in> set (new_events s8 rec)"
        using flag r' yf by simp
      show "m_currentFrame (final r) =
         (if isl r then m_currentFrame s8 else (m_currentFrame s8 + 1) mod MAX_FRAMES_IN_FLIGHT)"
        using r' frame yf by simp
      show "in_flight_inv s8 \<longrightarrow> in_flight_inv (final r)"
        using inv r' yf by simp
    qed
  next
    case (Inr y)
    let ?z = "queue_wait_idle sched (m_presentQueue y) y"
    have y: "final rec = y" using Inr by simp
    have r': "r = Inr (?z\<lparr>m_currentFrame := (m_currentFrame ?z + 1) mod MAX_FRAMES_IN_FLIGHT\<rparr>)"
      using r Inr by (simp add: Let_def)
    have hz: "host ?z = host y" by simp
    have evz: "events (final r) = events s8 @ new_events s8 rec @ [vkQueueWaitIdle]"
      using r' ev y by simp
    have az: "advances (\<lambda>e. True) y ?z" by (rule queue_wait_idle_advances) simp
    show thesis
    proof (rule rebuild[OF True])
      show "events (final r)
              = events s8 @ new_events s8 rec @ (if isl r then [] else [vkQueueWaitIdle])"
        using r' evz by simp
      show "isl r = isl rec" using r' Inr by simp
      show "m_framebufferResized (final r) \<longrightarrow> glfwWaitEvents \<in> set (new_events s8 rec)"
        using flag r' y same_host(17)[OF hz] by simp
      show "m_currentFrame (final r) =
         (if isl r then m_currentFrame s8 else (m_currentFrame s8 + 1) mod MAX_FRAMES_IN_FLIGHT)"
        using r' frame y same_host(16)[OF hz] by simp
      show "in_flight_inv s8 \<longrightarrow> in_flight_inv (final r)"
        using inv y r' advances_inv[OF az] by simp
    qed
  qed
next
  case False
  then have no: "presentResult a \<noteq> VK_ERROR_OUT_OF_DATE_KHR" "presentResult a \<noteq> VK_SUBOPTIMAL_KHR"
    "\<not> m_framebufferResized s8" by simp_all
  show thesis
  proof (cases "presentResult a = VK_SUCCESS")
    case False
    have "r = Inl (RuntimeError ''Failed to present swap chain image!'', s8)"
      using no False by (simp add: r_def present_tail_def)
    then show thesis by (rule failed[OF no False])
  next
    case True
    let ?z = "queue_wait_idle sched (m_presentQueue s8) s8"
    have r': "r = Inr (?z\<lparr>m_currentFrame := (m_currentFrame ?z + 1) mod MAX_FRAMES_IN_FLIGHT\<rparr>)"
      using no True by (simp add: r_def present_tail_def Let_def)
    have hz: "host ?z = host s8" by simp
    have az: "advances (\<lambda>e. True) s8 ?z" by (rule queue_wait_idle_advances) simp
    show thesis
    proof (rule ok[OF True no(3)])
      show "\<not> isl r" using r' by simp
      show "events (final r) = events s8 @ [vkQueueWaitIdle]" using r' by simp
      show "m_currentFrame (final r) = (m_currentFrame s8 + 1) mod MAX_FRAMES_IN_FLIGHT"
        using r' same_host(16)[OF hz] by simp
      show "\<not> m_framebufferResized (final r)"
        using r' same_host(17)[OF hz] no(3) by simp
      show "in_flight_inv s8 \<longrightarrow> in_flight_inv (final r)"
        using r' advances_inv[OF az] by simp
    qed
  qed
qed

lemma wait_Inr_facts:
  assumes "wait_for_fences sched f x = Inr y"
  shows "host y = host x" "events y = events x @ [vkWaitForFences f]"
    "in_flight_inv x \<Longrightarrow> in_flight_inv y" "in_flight_inv x \<Longrightarrow> f \<notin> set (dev_pending y)"
    "g \<notin> set (dev_pending x) \<Longrightarrow> g \<notin> set (dev_pending y)"
proof -
  have fin: "final (wait_for_fences sched f x) = y" using assms by simp
  show "host y = host x" using wait_for_fences_host[of sched f x] fin by simp
  show "events y = events x @ [vkWaitForFences f]"
    using wait_for_fences_events[of sched f x] fin by simp
  have adv: "advances (\<lambda>e. True) x y"
    using wait_for_fences_advances[of "\<lambda>e. True" f x sched] fin by simp
  show "in_flight_inv x \<Longrightarrow> in_flight_inv y" using adv by (rule advances_inv)
  show "in_flight_inv x \<Longrightarrow> f \<notin> set (dev_pending y)"
    using assms by (rule wait_for_fences_quiet)
  show "g \<notin> set (dev_pending x) \<Longrightarrow> g \<notin> set (dev_pending y)" using adv by (rule advances_quiet)
qed

lemma wait_Inl_facts:
  assumes "wait_for_fences sched f x = Inl (e, y)"
  shows "e = BlocksForever" "host y = host x" "events y = events x @ [vkWaitForFences f]"
    "in_flight_inv x \<Longrightarrow> in_flight_inv y"
proof -
  have fin: "final (wait_for_fences sched f x) = y" using assms by simp
  show "e = BlocksForever" using assms by (rule wait_for_fences_Inl)
  show "host y = host x" using wait_for_fences_host[of sched f x] fin by simp
  show "events y = events x @ [vkWaitForFences f]"
    using wait_for_fences_events[of sched f x] fin by simp
  have adv: "advances (\<lambda>e. True) x y"
    using wait_for_fences_advances[of "\<lambda>e. True" f x sched] fin by simp
  show "in_flight_inv x \<Longrightarrow> in_flight_inv y" using adv by (rule advances_inv)
qed

lemma call_facts:
  shows "in_flight_inv x \<Longrightarrow> in_flight_inv (call sched ev x)"
    and "g \<notin> set (dev_pending x) \<Longrightarrow> g \<notin> set (dev_pending (call sched ev x))"
proof -
  have adv: "advances (\<lambda>e. True) x (call sched ev x)" by (rule call_advances) simp
  show "in_flight_inv x \<Longrightarrow> in_flight_inv (call sched ev x)" using adv by (rule advances_inv)
  show "g \<notin> set (dev_pending x) \<Longrightarrow> g \<notin> set (dev_pending (call sched ev x))"
    using adv by (rule advances_quiet)
qed

text \<open>From the marking of the image to the presentation.\<close>

lemma submit_tail_cases:
  fixes sched a f s3
  assumes f: "f \<in> set (m_vFences s3)" and i: "acquiredImageIndex a < length (m_vImagesInFlight s3)"
  defines "r \<equiv> submit_tail sched a f s3"
  obtains
    (before_present) tl where "isl r" "events (final r) = events s3 @ tl"
      "tl = [] \<or> (\<exists>cb. tl = [vkResetFences f, vkQueueSubmit cb f]
                     \<or> tl = [vkResetFences f, vkQueueSubmit cb f, vkWaitForFences f])"
      "in_flight_inv s3 \<and> f \<notin> set (dev_pending s3) \<longrightarrow> in_flight_inv (final r)"
      "m_currentFrame (final r) = m_currentFrame s3"
  | (presented) cb s8 where
      "events s8 = events s3 @ [vkResetFences f, vkQueueSubmit cb f, vkWaitForFences f,
                               vkQueuePresentKHR (m_currentSwapChain s3) (acquiredImageIndex a)]"
      "m_framebufferResized s8 = m_framebufferResized s3"
      "m_currentFrame s8 = m_currentFrame s3"
      "r = present_tail sched a s8"
      "in_flight_inv s3 \<and> f \<notin> set (dev_pending s3) \<longrightarrow> in_flight_inv s8"
proof -
  let ?i = "acquiredImageIndex a"
  let ?s4 = "s3\<lparr>m_vImagesInFlight := (m_vImagesInFlight s3)[?i := Some f]\<rparr>"
  show thesis
  proof (cases "element (m_vCommandBuffers ?s4) ?i")
    case None
    then have r': "r = Inl (OutOfRange, ?s4)" by (simp add: r_def submit_tail_def Let_def)
    show thesis
      by (rule before_present[of "[]"]) (simp_all add: r')
  next
    case (Some cb)
    let ?s6 = "queue_submit sched (submitResult a) cb f (reset_fences sched f ?s4)"
    have h6: "host ?s6 = (host s3)\<lparr>m_vImagesInFlight := (m_vImagesInFlight s3)[?i := Some f]\<rparr>"
      by simp
    have ev6: "events ?s6 = events s3 @ [vkResetFences f, vkQueueSubmit cb f]" by simp
    have inv6: "in_flight_inv ?s6" if "in_flight_inv s3" "f \<notin> set (dev_pending s3)"
      by (rule reset_submit_inv) (use that f in simp_all)
    have tr6: "m_vImagesInFlight ?s6 = (m_vImagesInFlight s3)[?i := Some f]"
      using arg_cong[OF h6, of m_vImagesInFlight] by (simp only: host_fields) simp
    have fr6: "m_currentFrame ?s6 = m_currentFrame s3"
      using arg_cong[OF h6, of m_currentFrame] by (simp only: host_fields) simp
    have fl6: "m_framebufferResized ?s6 = m_framebufferResized s3"
      using arg_cong[OF h6, of m_framebufferResized] by (simp only: host_fields) simp
    have sc6: "m_currentSwapChain ?s6 = m_currentSwapChain s3"
      using arg_cong[OF h6, of m_currentSwapChain] by (simp only: host_fields) simp
    have el6: "element (m_vImagesInFlight ?s6) ?i = Some (Some f)"
      using i by (simp add: tr6 element_def)
    show thesis
    proof (cases "submitResult a = VK_SUCCESS")
      case False
      with Some have r': "r = Inl (RuntimeError ''Failed to submit draw command buffer!'', ?s6)"
        by (simp add: r_def submit_tail_def Let_def)
      show thesis
      proof (rule before_present[of "[vkResetFences f, vkQueueSubmit cb f]"])
        show "isl r" using r' by simp
        show "events (final r) = events s3 @ [vkResetFences f, vkQueueSubmit cb f]"
          using r' ev6 by simp
        show "in_flight_inv s3 \<and> f \<notin> set (dev_pending s3) \<longrightarrow> in_flight_inv (final r)"
          using r' inv6 by simp
        show "m_currentFrame (final r) = m_currentFrame s3" using r' fr6 by simp
      qed simp
    next
      case True
      with Some el6 have r': "r = andThen (wait_for_fences sched f ?s6) (\<lambda>s7.
            present_tail sched a (call sched (vkQueuePresentKHR (m_currentSwapChain s7) ?i) s7))"
        by (simp add: r_def submit_tail_def Let_def)
      show thesis
      proof (cases "wait_for_fences sched f ?s6")
        case (Inl p)
        obtain e y where p: "p = (e, y)" by (cases p)
        note w = wait_Inl_facts[OF Inl[unfolded p]]
        have r'': "r = Inl (e, y)" using r' Inl p by simp
        show thesis
        proof (rule before_present[of "[vkResetFences f, vkQueueSubmit cb f, vkWaitForFences f]"])
          show "isl r" using r'' by simp
          show "events (final r)
                  = events s3 @ [vkResetFences f, vkQueueSubmit cb f, vkWaitForFences f]"
            using r'' w(3) ev6 by simp
          show "in_flight_inv s3 \<and> f \<notin> set (dev_pending s3) \<longrightarrow> in_flight_inv (final r)"
            using r'' inv6 w(4) by simp
          show "m_currentFrame (final r) = m_currentFrame s3"
            using r'' same_host(16)[OF w(2)] fr6 by simp
        qed simp
      next
        case (Inr s7)
        note w = wait_Inr_facts[OF Inr]
        let ?s8 = "call sched (vkQueuePresentKHR (m_currentSwapChain s7) ?i) s7"
        have r'': "r = present_tail sched a ?s8" using r' Inr by simp
        have sc7: "m_currentSwapChain s7 = m_currentSwapChain s3"
          using same_host(4)[OF w(1)] sc6 by simp
        show thesis
        proof (rule presented[of ?s8 cb])
          show "events ?s8 = events s3 @ [vkResetFences f, vkQueueSubmit cb f, vkWaitForFences f,
                               vkQueuePresentKHR (m_currentSwapChain s3) ?i]"
            using w(2) ev6 sc7 by simp
          show "m_framebufferResized ?s8 = m_framebufferResized s3"
            using same_host(17)[OF w(1)] fl6 by simp
          show "m_currentFrame ?s8 = m_currentFrame s3"
            using same_host(16)[OF w(1)] fr6 by simp
          show "r = present_tail sched a ?s8" by (rule r'')
          show "in_flight_inv s3 \<and> f \<notin> set (dev_pending s3) \<longrightarrow> in_flight_inv ?s8"
            using inv6 w(3) call_facts(1) by blast
        qed
      qed
    qed
  qed
qed

lemma DrawFrame_cases:
  fixes sched a s
  defines "r \<equiv> DrawFrame sched a s"
  defines "slot \<equiv> element (m_vFences s) (unat (m_currentFrame s))"
  obtains
    (before_acquire) "isl r"
      "new_events s r = [] \<or> (\<exists>f. slot = Some f \<and> new_events s r = [vkWaitForFences f])"
      "in_flight_inv s \<longrightarrow> in_flight_inv (final r)"
      "m_currentFrame (final r) = m_currentFrame s"
  | (stale) f sem s2 where "slot = Some f" "acquireResult a = VK_ERROR_OUT_OF_DATE_KHR"
      "host s2 = host s"
      "events s2 = events s @ [vkWaitForFences f, vkAcquireNextImageKHR (m_currentSwapChain s) sem]"
      "r = RecreateSwapChain sched (rebuild a) s2"
      "in_flight_inv s \<longrightarrow> in_flight_inv s2"
  | (acquire_failed) f sem s2 where "slot = Some f"
      "acquireResult a \<noteq> VK_ERROR_OUT_OF_DATE_KHR" "\<not> acquire_ok a"
      "r = Inl (RuntimeError ''Failed to acquire swap chain image!'', s2)"
      "new_events s r = [vkWaitForFences f, vkAcquireNextImageKHR (m_currentSwapChain s) sem]"
      "in_flight_inv s \<longrightarrow> in_flight_inv (final r)"
      "m_currentFrame (final r) = m_currentFrame s"
  | (tracker_out_of_range) f sem s2 where "slot = Some f" "acquire_ok a"
      "\<not> acquiredImageIndex a < length (m_vImagesInFlight s)"
      "r = Inl (OutOfRange, s2)"
      "new_events s r = [vkWaitForFences f, vkAcquireNextImageKHR (m_currentSwapChain s) sem]"
      "in_flight_inv s \<longrightarrow> in_flight_inv (final r)"
      "m_currentFrame (final r) = m_currentFrame s"
  | (before_present) f sem ws tl where "slot = Some f" "acquire_ok a"
      "acquiredImageIndex a < length (m_vImagesInFlight s)"
      "isl r"
      "new_events s r
         = vkWaitForFences f # vkAcquireNextImageKHR (m_currentSwapChain s) sem # ws @ tl"
      "fence_waits ws"
      "tl = [] \<or> (\<exists>cb. tl = [vkResetFences f, vkQueueSubmit cb f]
                     \<or> tl = [vkResetFences f, vkQueueSubmit cb f, vkWaitForFences f])"
      "in_flight_inv s \<longrightarrow> in_flight_inv (final r)"
      "m_currentFrame (final r) = m_currentFrame s"
  | (presented) f sem ws cb s8 where "slot = Some f" "acquire_ok a"
      "acquiredImageIndex a < length (m_vImagesInFlight s)"
      "fence_waits ws"
      "events s8 = events s @ vkWaitForFences f # vkAcquireNextImageKHR (m_currentSwapChain s) sem
                      # ws @ [vkResetFences f, vkQueueSubmit cb f, vkWaitForFences f,
                              vkQueuePresentKHR (m_currentSwapChain s) (acquiredImageIndex a)]"
      "m_framebufferResized s8 = m_framebufferResized s"
      "m_currentFrame s8 = m_currentFrame s"
      "r = present_tail sched a s8"
      "in_flight_inv s \<longrightarrow> in_flight_inv s8"
proof (cases slot)
  case None
  then have r': "r = Inl (OutOfRange, s)"
    by (simp add: r_def slot_def DrawFrame_unfold)
  show thesis
    by (rule before_acquire) (simp_all add: r' new_events_def)
next
  case (Some f)
  then have fs: "f \<in> set (m_vFences s)"
    unfolding slot_def by (auto dest: element_Some)
  let ?i = "acquiredImageIndex a"
  define rest where "rest = (\<lambda>s1.
        case element (m_vImageAvailableSemaphores s1) (unat (m_currentFrame s1)) of
          None \<Rightarrow> Inl (OutOfRange, s1)
        | Some semaphore \<Rightarrow>
          let s2 = call sched (vkAcquireNextImageKHR (m_currentSwapChain s1) semaphore) s1
          in if acquireResult a = VK_ERROR_OUT_OF_DATE_KHR
             then RecreateSwapChain sched (rebuild a) s2
             else if acquireResult a \<noteq> VK_SUCCESS \<and> acquireResult a \<noteq> VK_SUBOPTIMAL_KHR
             then Inl (RuntimeError ''Failed to acquire swap chain image!'', s2)
             else
               (case element (m_vImagesInFlight s2) (acquiredImageIndex a) of
                  None \<Rightarrow> Inl (OutOfRange, s2)
                | Some inFlight \<Rightarrow>
                  andThen (case inFlight of
                             None \<Rightarrow> Inr s2
                           | Some imageFence \<Rightarrow> wait_for_fences sched imageFence s2)
                    (submit_tail sched a f)))"
  have r0: "r = andThen (wait_for_fences sched f s) rest"
    using Some by (simp add: r_def slot_def DrawFrame_unfold rest_def)
  show thesis
  proof (cases "wait_for_fences sched f s")
    case (Inl p)
    obtain e y where p: "p = (e, y)" by (cases p)
    note w = wait_Inl_facts[OF Inl[unfolded p]]
    have r': "r = Inl (e, y)" using r0 Inl p by simp
    show thesis
    proof (rule before_acquire)
      show "isl r" using r' by simp
      show "new_events s r = [] \<or> (\<exists>f. slot = Some f \<and> new_events s r = [vkWaitForFences f])"
        using r' w(3) Some by (simp add: new_events_def)
      show "in_flight_inv s \<longrightarrow> in_flight_inv (final r)" using r' w(4) by simp
      show "m_currentFrame (final r) = m_currentFrame s" using r' same_host(16)[OF w(2)] by simp
    qed
  next
    case (Inr s1)
    note w = wait_Inr_facts[OF Inr]
    note h1 = same_host[OF w(1)]
    have r1: "r = rest s1" using r0 Inr by simp
    show thesis
    proof (cases "element (m_vImageAvailableSemaphores s1) (unat (m_currentFrame s1))")
      case None
      then have r': "r = Inl (OutOfRange, s1)" by (simp add: r1 rest_def)
      show thesis
      proof (rule before_acquire)
        show "isl r" using r' by simp
        show "new_events s r = [] \<or> (\<exists>f. slot = Some f \<and> new_events s r = [vkWaitForFences f])"
          using r' w(2) Some by (simp add: new_events_def)
        show "in_flight_inv s \<longrightarrow> in_flight_inv (final r)" using r' w(3) by simp
        show "m_currentFrame (final r) = m_currentFrame s" using r' h1(16) by simp
      qed
    next
      case (Some sem)
      let ?s2 = "call sched (vkAcquireNextImageKHR (m_currentSwapChain s1) sem) s1"
      have h2: "host ?s2 = host s" using w(1) by simp
      note hs2 = same_host[OF h2]
      have ev2: "events ?s2
                  = events s @ [vkWaitForFences f, vkAcquireNextImageKHR (m_currentSwapChain s) sem]"
        using w(2) h1(4) by simp
      have inv2: "in_flight_inv s \<longrightarrow> in_flight_inv ?s2" using w(3) call_facts(1) by blast
      have q2: "in_flight_inv s \<longrightarrow> f \<notin> set (dev_pending ?s2)" using w(4) call_facts(2) by blast
      have r2: "r = (if acquireResult a = VK_ERROR_OUT_OF_DATE_KHR
             then RecreateSwapChain sched (rebuild a) ?s2
             else if acquireResult a \<noteq> VK_SUCCESS \<and> acquireResult a \<noteq> VK_SUBOPTIMAL_KHR
             then Inl (RuntimeError ''Failed to acquire swap chain image!'', ?s2)
             else
               (case element (m_vImagesInFlight ?s2) ?i of
                  None \<Rightarrow> Inl (OutOfRange, ?s2)
                | Some inFlight \<Rightarrow>
                  andThen (case inFlight of
                             None \<Rightarrow> Inr ?s2
                           | Some imageFence \<Rightarrow> wait_for_fences sched imageFence ?s2)
                    (submit_tail sched a f)))"
        using Some by (simp add: r1 rest_def Let_def)
      show thesis
      proof (cases "acquireResult a = VK_ERROR_OUT_OF_DATE_KHR")
        case True
        with r2 have "r = RecreateSwapChain sched (rebuild a) ?s2" by simp
        then show thesis
          using stale[OF \<open>slot = Some f\<close> True h2 ev2 _ inv2] by blast
      next
        case stale_not: False
        show thesis
        proof (cases "acquire_ok a")
          case False
          with stale_not r2 have r': "r = Inl (RuntimeError ''Failed to acquire swap chain image!'', ?s2)"
            by (simp add: acquire_ok_def)
          show thesis
          proof (rule acquire_failed[OF \<open>slot = Some f\<close> stale_not False r'])
            show "new_events s r
                    = [vkWaitForFences f, vkAcquireNextImageKHR (m_currentSwapChain s) sem]"
              using r' ev2 by (simp add: new_events_def)
            show "in_flight_inv s \<longrightarrow> in_flight_inv (final r)" using r' inv2 by simp
            show "m_currentFrame (final r) = m_currentFrame s" using r' h1(16) by simp
          qed
        next
          case True
          with stale_not r2 have r3: "r =
               (case element (m_vImagesInFlight ?s2) ?i of
                  None \<Rightarrow> Inl (OutOfRange, ?s2)
                | Some inFlight \<Rightarrow>
                  andThen (case inFlight of
                             None \<Rightarrow> Inr ?s2
                           | Some imageFence \<Rightarrow> wait_for_fences sched imageFence ?s2)
                    (submit_tail sched a f))"
            by (auto simp: acquire_ok_def)
          show thesis
          proof (cases "?i < length (m_vImagesInFlight s)")
            case False
            then have "element (m_vImagesInFlight ?s2) ?i = None"
              by (simp add: element_def h1(15))
            with r3 have r': "r = Inl (OutOfRange, ?s2)" by simp
            show thesis
            proof (rule tracker_out_of_range[OF \<open>slot = Some f\<close> True False r'])
              show "new_events s r
                      = [vkWaitForFences f, vkAcquireNextImageKHR (m_currentSwapChain s) sem]"
                using r' ev2 by (simp add: new_events_def)
              show "in_flight_inv s \<longrightarrow> in_flight_inv (final r)" using r' inv2 by simp
              show "m_currentFrame (final r) = m_currentFrame s" using r' h1(16) by simp
            qed
          next
            case in_range: True
            then have el: "element (m_vImagesInFlight ?s2) ?i = Some (m_vImagesInFlight s ! ?i)"
              by (simp add: element_def h1(15))
            with r3 have r4: "r = andThen (case m_vImagesInFlight s ! ?i of
                             None \<Rightarrow> Inr ?s2
                           | Some imageFence \<Rightarrow> wait_for_fences sched imageFence ?s2)
                    (submit_tail sched a f)" by simp
            text \<open>Either the image wait does not return, or the marking is reached.\<close>
            have "(\<exists>y ws. r = Inl (BlocksForever, y) \<and> fence_waits ws
                     \<and> events y = events ?s2 @ ws \<and> host y = host s
                     \<and> (in_flight_inv s \<longrightarrow> in_flight_inv y))
                \<or> (\<exists>s3 ws. r = submit_tail sched a f s3 \<and> fence_waits ws
                     \<and> events s3 = events ?s2 @ ws \<and> host s3 = host s
                     \<and> (in_flight_inv s \<longrightarrow> in_flight_inv s3 \<and> f \<notin> set (dev_pending s3)))"
            proof (cases "m_vImagesInFlight s ! ?i")
              case None
              with r4 have "r = submit_tail sched a f ?s2" by simp
              moreover have "fence_waits []" by (simp add: fence_waits_def)
              ultimately show ?thesis using h2 inv2 q2 by (intro disjI2 exI[of _ ?s2] exI[of _ "[]"]) simp
            next
              case (Some g)
              show ?thesis
              proof (cases "wait_for_fences sched g ?s2")
                case (Inl p)
                obtain e y where p: "p = (e, y)" by (cases p)
                note wg = wait_Inl_facts[OF Inl[unfolded p]]
                have "r = Inl (BlocksForever, y)" using r4 Some Inl p wg(1) by simp
                moreover have "fence_waits [vkWaitForFences g]" by (simp add: fence_waits_def)
                moreover have "host y = host s" using wg(2) h2 by simp
                ultimately show ?thesis
                  using wg(3,4) inv2
                  by (intro disjI1 exI[of _ y] exI[of _ "[vkWaitForFences g]"]) simp
              next
                case (Inr s3)
                note wg = wait_Inr_facts[OF Inr]
                have "r = submit_tail sched a f s3" using r4 Some Inr by simp
                moreover have "fence_waits [vkWaitForFences g]" by (simp add: fence_waits_def)
                moreover have "host s3 = host s" using wg(1) h2 by simp
                ultimately show ?thesis
                  using wg(2,3,5) inv2 q2
                  by (intro disjI2 exI[of _ s3] exI[of _ "[vkWaitForFences g]"]) blast
              qed
            qed
            then show thesis
            proof (elim disjE exE conjE)
              fix y ws
              assume y: "r = Inl (BlocksForever, y)" "fence_waits ws" "events y = events ?s2 @ ws"
                "host y = host s" "in_flight_inv s \<longrightarrow> in_flight_inv y"
              show thesis
              proof (rule before_present[where ws = ws and tl = "[]" and sem = sem,
                             OF \<open>slot = Some f\<close> True in_range])
                show "isl r" using y(1) by simp
                show "new_events s r = vkWaitForFences f
                        # vkAcquireNextImageKHR (m_currentSwapChain s) sem # ws @ []"
                  using y(1,3) ev2 by (simp add: new_events_def)
                show "fence_waits ws" by (rule y(2))
                show "in_flight_inv s \<longrightarrow> in_flight_inv (final r)" using y(1,5) by simp
                show "m_currentFrame (final r) = m_currentFrame s"
                  using y(1) same_host(16)[OF y(4)] by simp
              qed simp
            next
              fix s3 ws
              assume s3: "r = submit_tail sched a f s3" "fence_waits ws"
                "events s3 = events ?s2 @ ws" "host s3 = host s"
                "in_flight_inv s \<longrightarrow> in_flight_inv s3 \<and> f \<notin> set (dev_pending s3)"
              note h3 = same_host[OF s3(4)]
              have f3: "f \<in> set (m_vFences s3)" using fs h3(14) by simp
              have i3: "?i < length (m_vImagesInFlight s3)" using in_range h3(15) by simp
              have ev3: "events s3 = events s @ vkWaitForFences f
                            # vkAcquireNextImageKHR (m_currentSwapChain s) sem # ws"
                using s3(3) ev2 by simp
              note bp_rule = before_present[OF \<open>slot = Some f\<close> True in_range]
              note pr_rule = presented[OF \<open>slot = Some f\<close> True in_range s3(2)]
              from f3 i3 show thesis
              proof (cases rule: submit_tail_cases[where sched = sched])
                case (before_present tl)
                show ?thesis
                proof (rule bp_rule[where ws = ws and tl = tl and sem = sem])
                  show "isl r" using before_present(1) s3(1) by simp
                  have "events (final r) = events s3 @ tl"
                    using before_present(2) s3(1) by simp
                  then show "new_events s r = vkWaitForFences f
                          # vkAcquireNextImageKHR (m_currentSwapChain s) sem # ws @ tl"
                    using ev3 by (simp add: new_events_def)
                  show "fence_waits ws" by (rule s3(2))
                  show "tl = [] \<or> (\<exists>cb. tl = [vkResetFences f, vkQueueSubmit cb f]
                     \<or> tl = [vkResetFences f, vkQueueSubmit cb f, vkWaitForFences f])"
                    by (rule before_present(3))
                  show "in_flight_inv s \<longrightarrow> in_flight_inv (final r)"
                    using before_present(4) s3(1,5) by simp
                  show "m_currentFrame (final r) = m_currentFrame s"
                    using before_present(5) s3(1) h3(16) by simp
                qed
              next
                case (presented cb s8)
                show ?thesis
                proof (rule pr_rule[where ?s8.0 = s8 and sem = sem and cb = cb])
                  show "events s8 = events s @ vkWaitForFences f
                      # vkAcquireNextImageKHR (m_currentSwapChain s) sem
                      # ws @ [vkResetFences f, vkQueueSubmit cb f, vkWaitForFences f,
                              vkQueuePresentKHR (m_currentSwapChain s) ?i]"
                    using presented(1) ev3 h3(4) by simp
                  show "m_framebufferResized s8 = m_framebufferResized s"
                    using presented(2) h3(17) by simp
                  show "m_currentFrame s8 = m_currentFrame s" using presented(3) h3(16) by simp
                  show "r = present_tail sched a s8" using presented(4) s3(1) by simp
                  show "in_flight_inv s \<longrightarrow> in_flight_inv s8" using presented(5) s3(5) by simp
                qed
              qed
            qed
          qed
        qed
      qed
    qed
  qed
qed

subsection \<open>The invariant of the frame loop\<close>

lemma recreate_event_not_frame_call: "recreate_event old e \<Longrightarrow> \<not> is_frame_call e"
  by (cases e)
     (simp_all add: recreate_event_def rebuild_event_def creation_event_def is_poll_def
        is_teardown_def is_construction_def is_frame_call_def)

lemma frame_call_classes:
  "is_present e \<Longrightarrow> is_frame_call e" "is_submit e \<Longrightarrow> is_frame_call e"
  "is_acquire e \<Longrightarrow> is_frame_call e"
  by (cases e; simp add: is_present_def is_submit_def is_acquire_def is_frame_call_def)+

lemma reset_then_submit_quiet:
  "(\<forall>e \<in> set es. \<not> is_frame_call e) \<Longrightarrow> reset_then_submit es"
proof (induction es)
  case Nil show ?case by simp
next
  case (Cons e es)
  then have "\<not> is_frame_call e" by simp
  then have "(case e of vkResetFences g \<Rightarrow> False | _ \<Rightarrow> True)"
    by (cases e) (simp_all add: is_frame_call_def)
  with Cons show ?case by (cases e) simp_all
qed


lemma RecreateSwapChain_new_events:
  fixes sched a s
  defines "r \<equiv> RecreateSwapChain sched a s"
  shows "events (final r) = events s @ new_events s r"
    and "\<forall>e \<in> set (new_events s r). recreate_event (m_oldSwapChain s) e"
    and "m_currentFrame (final r) = m_currentFrame s"
    and "m_vImagesInFlight (final r) = m_vImagesInFlight s"
    and "m_oldSwapChain (final r) = m_oldSwapChain s"
    and "in_flight_inv s \<longrightarrow> in_flight_inv (final r)"
proof -
  have adv: "advances (recreate_event (m_oldSwapChain s)) s (final r)"
    unfolding r_def by (rule RecreateSwapChain_advances)
  from advances_new_events[OF adv] show "events (final r) = events s @ new_events s r"
    and "\<forall>e \<in> set (new_events s r). recreate_event (m_oldSwapChain s) e" by simp_all
  from adv show "m_currentFrame (final r) = m_currentFrame s"
    and "m_vImagesInFlight (final r) = m_vImagesInFlight s"
    and "m_oldSwapChain (final r) = m_oldSwapChain s"
    and "in_flight_inv s \<longrightarrow> in_flight_inv (final r)"
    by (simp_all add: advances_def)
qed

lemma cleanup_events_teardown: "\<forall>e \<in> set (cleanup_events s). is_teardown e"
  by (auto simp: cleanup_events_def is_teardown_def)

text \<open>The entry marker occurs once: at the head of what a call of \<^verbatim>\<open>RecreateSwapChain\<close> adds.\<close>

lemma RecreateSwapChain_once:
  "\<exists>rest. new_events s (RecreateSwapChain sched a s) = Enter_RecreateSwapChain # rest
          \<and> Enter_RecreateSwapChain \<notin> set rest"
proof -
  from RecreateSwapChain_events[of sched a s] obtain polls rb where
    ev: "events (final (RecreateSwapChain sched a s))
       = events s @ Enter_RecreateSwapChain
           # glfwGetFramebufferSize (fst (framebufferSize s)) (snd (framebufferSize s))
           # polls @ rb"
    and polls: "\<forall>e \<in> set polls. is_poll e"
    and rb: "rb = [] \<or> (\<exists>cr. rb = vkDeviceWaitIdle # cleanup_events s @ cr
                 \<and> (\<forall>e \<in> set cr. creation_event (m_oldSwapChain s) e))"
    by blast
  have 1: "Enter_RecreateSwapChain \<notin> set polls" using polls by (auto simp: is_poll_def)
  have nt: "\<not> is_teardown Enter_RecreateSwapChain"
    and nc: "\<not> creation_event (m_oldSwapChain s) Enter_RecreateSwapChain"
    by (simp_all add: is_teardown_def creation_event_def is_construction_def)
  have 2: "Enter_RecreateSwapChain \<notin> set rb"
  proof (rule disjE[OF rb])
    assume "rb = []" then show ?thesis by simp
  next
    assume "\<exists>cr. rb = vkDeviceWaitIdle # cleanup_events s @ cr
                 \<and> (\<forall>e \<in> set cr. creation_event (m_oldSwapChain s) e)"
    then obtain cr where cr: "rb = vkDeviceWaitIdle # cleanup_events s @ cr"
      "\<forall>e \<in> set cr. creation_event (m_oldSwapChain s) e" by blast
    have "Enter_RecreateSwapChain \<notin> set (cleanup_events s)"
      using cleanup_events_teardown[of s] nt by blast
    moreover have "Enter_RecreateSwapChain \<notin> set cr" using cr(2) nc by blast
    ultimately show ?thesis using cr(1) by simp
  qed
  from new_events_eq[OF ev] 1 2 show ?thesis by simp
qed

lemma count_list_once: "e \<notin> set rest \<Longrightarrow> count_list (e # rest) e = 1"
  by (simp add: count_list_0_iff)

lemma count_list_absent: "e \<notin> set xs \<Longrightarrow> count_list xs e = 0"
  by (simp add: count_list_0_iff)




lemma unat_MAX [simp]: "unat MAX_FRAMES_IN_FLIGHT = 2"
  by (simp add: MAX_FRAMES_IN_FLIGHT_def)


subsection \<open>The calls of an iteration and of a rebuild\<close>

lemma split_after_prefix:
  "xs @ ys = pre @ e # post \<Longrightarrow> e \<notin> set xs \<Longrightarrow> \<exists>pre'. pre = xs @ pre' \<and> ys = pre' @ e # post"
  by (auto simp: append_eq_append_conv2 append_eq_Cons_conv)







lemma fence_waits_classes:
  "fence_waits ws \<Longrightarrow>
     \<forall>e \<in> set ws. \<not> is_present e \<and> \<not> is_submit e \<and> \<not> is_acquire e \<and> e \<noteq> Enter_RecreateSwapChain"
  by (auto simp: fence_waits_def is_present_def is_submit_def is_acquire_def)

lemma recreate_event_classes:
  "recreate_event old e \<Longrightarrow> \<not> is_present e \<and> \<not> is_submit e \<and> \<not> is_acquire e"
  using recreate_event_not_frame_call[of old e] frame_call_classes[of e] by blast

text \<open>What the present step adds to the log, after the events \<open>pre\<close> issued before it.\<close>

lemma present_step_events:
  assumes ev8: "events s8 = events s @ pre" and r: "r = present_tail sched a s8"
  obtains (rebuild) rest where
      "presentResult a = VK_ERROR_OUT_OF_DATE_KHR \<or> presentResult a = VK_SUBOPTIMAL_KHR
       \<or> m_framebufferResized s8"
      "new_events s r
         = pre @ Enter_RecreateSwapChain # rest @ (if isl r then [] else [vkQueueWaitIdle])"
      "\<forall>e \<in> set rest. recreate_event (m_oldSwapChain s8) e"
      "Enter_RecreateSwapChain \<notin> set rest"
      "m_framebufferResized (final r) \<longrightarrow> glfwWaitEvents \<in> set rest"
  | (failed) "presentResult a \<noteq> VK_ERROR_OUT_OF_DATE_KHR" "presentResult a \<noteq> VK_SUBOPTIMAL_KHR"
      "\<not> m_framebufferResized s8" "presentResult a \<noteq> VK_SUCCESS"
      "r = Inl (RuntimeError ''Failed to present swap chain image!'', s8)"
      "new_events s r = pre"
  | (ok) "presentResult a = VK_SUCCESS" "\<not> m_framebufferResized s8"
      "\<not> isl r" "new_events s r = pre @ [vkQueueWaitIdle]"
      "\<not> m_framebufferResized (final r)"
proof (cases rule: present_tail_cases[of a s8 sched])
  case rebuild
  let ?s = "s8\<lparr>m_framebufferResized := False\<rparr>"
  let ?rec = "RecreateSwapChain sched (rebuild a) ?s"
  from RecreateSwapChain_once[where s = ?s and sched = sched and a = "rebuild a"]
  obtain rest where rest: "new_events s8 ?rec = Enter_RecreateSwapChain # rest"
    "Enter_RecreateSwapChain \<notin> set rest" by auto
  from RecreateSwapChain_new_events(2)[where s = ?s and sched = sched and a = "rebuild a"]
  have all: "\<forall>e \<in> set (new_events s8 ?rec). recreate_event (m_oldSwapChain s8) e" by simp
  have ev: "new_events s r
         = pre @ Enter_RecreateSwapChain # rest @ (if isl r then [] else [vkQueueWaitIdle])"
    by (rule new_events_eq) (use rebuild(2) rest(1) ev8 r in simp)
  have flag: "m_framebufferResized (final r) \<longrightarrow> glfwWaitEvents \<in> set rest"
    using rebuild(4) rest(1) r by auto
  show thesis
    by (rule that(1)[OF rebuild(1) ev _ rest(2) flag]) (use all rest(1) in simp)
next
  case failed
  have "new_events s r = pre" by (rule new_events_eq) (use failed(5) ev8 r in simp)
  with failed r show thesis by (intro that(2)) simp_all
next
  case ok
  have "new_events s r = pre @ [vkQueueWaitIdle]"
    by (rule new_events_eq) (use ok(4) ev8 r in simp)
  with ok r show thesis by (intro that(3)) simp_all
qed


lemma CreateSyncObjects_Inr:
  assumes "CreateSyncObjects sched results s0 = Inr s"
  shows "m_vFences s = map (\<lambda>i. length (dev_fences s0) + i) [0 ..< unat MAX_FRAMES_IN_FLIGHT]"
    and "length (m_vImagesInFlight s) = length (m_vSwapChainImageViews s)"
    and "m_vSwapChainImages s = m_vSwapChainImages s0"
    and "m_vSwapChainImageViews s = m_vSwapChainImageViews s0"
proof -
  let ?n = "unat MAX_FRAMES_IN_FLIGHT"
  let ?s1 = "s0\<lparr>m_vImageAvailableSemaphores := fresh_handles ?n s0,
                 m_vRenderFinishedSemaphores := map (\<lambda>h. h + ?n) (fresh_handles ?n s0),
                 next_handle := next_handle s0 + 2 * ?n,
                 m_vFences := map (\<lambda>i. length (dev_fences s0) + i) [0 ..< ?n],
                 dev_fences := dev_fences s0 @ replicate ?n True,
                 m_vImagesInFlight :=
                   resize (length (m_vSwapChainImageViews s0)) None (m_vImagesInFlight s0)\<rparr>"
  obtain cs where run: "run_calls sched cs ?s1 = Inr s"
    using assms(1) unfolding CreateSyncObjects_def Let_def by blast
  from run_calls_Inr[OF run] have h: "host s = host ?s1" by simp
  note hs = same_host[OF h]
  from hs(14) show "m_vFences s = map (\<lambda>i. length (dev_fences s0) + i) [0 ..< ?n]" by simp
  from hs(15) hs(9) show "length (m_vImagesInFlight s) = length (m_vSwapChainImageViews s)"
    by (simp add: resize_def)
  from hs(6) show "m_vSwapChainImages s = m_vSwapChainImages s0" by simp
  from hs(9) show "m_vSwapChainImageViews s = m_vSwapChainImageViews s0" by simp
qed

lemma poll_classes:
  "is_poll e \<Longrightarrow> e \<noteq> vkDeviceWaitIdle \<and> \<not> is_teardown e \<and> \<not> is_construction e
     \<and> e \<noteq> Enter_RecreateSwapChain"
  by (cases e) (simp_all add: is_poll_def is_teardown_def is_construction_def)

lemma creation_event_classes:
  "creation_event old e \<Longrightarrow> (\<forall>c. e \<noteq> vkDestroySwapchainKHR c)"
  "creation_event old (vkCreateSwapchainKHR info) \<Longrightarrow> ci_oldSwapchain info = old"
  by (auto simp: creation_event_def is_construction_def)

lemma RecreateSwapChain_Inr:
  assumes "RecreateSwapChain sched a s = Inr s'"
  shows "length (m_vSwapChainImages s') = swapchainImageCount a"
    and "length (m_vSwapChainImageViews s') = swapchainImageCount a"
proof -
  from assms obtain x where "RebuildSwapChain sched a x = Inr s'"
    unfolding RecreateSwapChain_def Let_def andThen_Inr by blast
  from RebuildSwapChain_Inr(1,2)[OF this]
  show "length (m_vSwapChainImages s') = swapchainImageCount a"
    and "length (m_vSwapChainImageViews s') = swapchainImageCount a" by simp_all
qed

text \<open>The log of a rebuild splits into a polling part and the rebuild proper.\<close>

lemma RecreateSwapChain_split:
  fixes sched a s
  defines "r \<equiv> RecreateSwapChain sched a s"
  obtains polls rb where
    "new_events s r = (Enter_RecreateSwapChain # polls) @ rb"
    "\<forall>e \<in> set polls. is_poll e"
    "(rb = [] \<and> (\<exists>y. r = Inl (BlocksForever, y)))
     \<or> ((\<exists>w h. w \<noteq> 0 \<and> h \<noteq> 0 \<and> glfwGetFramebufferSize w h \<in> set polls)
        \<and> (\<exists>cr. rb = (vkDeviceWaitIdle # cleanup_events s) @ cr
              \<and> (\<forall>e \<in> set cr. creation_event (m_oldSwapChain s) e)
              \<and> (\<not> isl r \<longrightarrow> (\<exists>info. vkCreateSwapchainKHR info \<in> set cr))))"
proof -
  let ?size = "glfwGetFramebufferSize (fst (framebufferSize s)) (snd (framebufferSize s))"
  from RecreateSwapChain_events[of sched a s] obtain polls rb where
    ev: "events (final r) = events s @ Enter_RecreateSwapChain # ?size # polls @ rb"
    and polls: "\<forall>e \<in> set polls. is_poll e"
    and rb: "(rb = [] \<and> (\<exists>y. r = Inl (BlocksForever, y)))
        \<or> ((\<exists>w h. w \<noteq> 0 \<and> h \<noteq> 0 \<and> glfwGetFramebufferSize w h \<in> set (?size # polls))
           \<and> (\<exists>cr. rb = vkDeviceWaitIdle # cleanup_events s @ cr
                 \<and> (\<forall>e \<in> set cr. creation_event (m_oldSwapChain s) e)
                 \<and> (\<not> isl r \<longrightarrow> (\<exists>info. vkCreateSwapchainKHR info \<in> set cr))))"
    unfolding r_def by blast
  show thesis
  proof (rule that[of "?size # polls" rb])
    show "new_events s r = (Enter_RecreateSwapChain # ?size # polls) @ rb"
      by (rule new_events_eq) (simp add: ev)
    show "\<forall>e \<in> set (?size # polls). is_poll e" using polls by (simp add: is_poll_def)
    show "(rb = [] \<and> (\<exists>y. r = Inl (BlocksForever, y)))
     \<or> ((\<exists>w h. w \<noteq> 0 \<and> h \<noteq> 0 \<and> glfwGetFramebufferSize w h \<in> set (?size # polls))
        \<and> (\<exists>cr. rb = (vkDeviceWaitIdle # cleanup_events s) @ cr
              \<and> (\<forall>e \<in> set cr. creation_event (m_oldSwapChain s) e)
              \<and> (\<not> isl r \<longrightarrow> (\<exists>info. vkCreateSwapchainKHR info \<in> set cr))))"
      using rb by simp
  qed
qed

lemma stale_events:
  assumes "events s2 = events s @ pre" "r = RecreateSwapChain sched ra s2"
  shows "\<exists>rest. new_events s r = pre @ Enter_RecreateSwapChain # rest
           \<and> Enter_RecreateSwapChain \<notin> set rest
           \<and> (\<forall>e \<in> set rest. recreate_event (m_oldSwapChain s2) e)"
proof -
  note rc = RecreateSwapChain_new_events[where s = s2 and sched = sched and a = ra]
  from RecreateSwapChain_once[where s = s2 and sched = sched and a = ra]
  obtain rest where rest: "new_events s2 r = Enter_RecreateSwapChain # rest"
    "Enter_RecreateSwapChain \<notin> set rest" unfolding assms(2) by blast
  have "new_events s r = pre @ Enter_RecreateSwapChain # rest"
    by (rule new_events_eq) (use rc(1) rest(1) assms in simp)
  moreover have "\<forall>e \<in> set rest. recreate_event (m_oldSwapChain s2) e"
    using rc(2) rest(1) assms(2) by simp
  ultimately show ?thesis using rest(2) by blast
qed

subsection \<open>Runs of the example\<close>

lemma gpu_advance_lazy: "gpu_advance lazy s = s"
  by (simp add: gpu_advance_def lazy_def)

lemma call_lazy: "call lazy ev s = log_call ev s"
  by (simp add: call_def gpu_advance_lazy)

lemmas run_lazy =
  call_lazy gpu_advance_lazy log_call_def element_def wait_for_fences_def reset_fences_def
  queue_submit_def queue_wait_idle_def device_wait_idle_def get_framebuffer_size_def
  gpu_drain_def gpu_finish_def events_def new_events_def Let_def andThen_def final_def
  MAX_FRAMES_IN_FLIGHT_def ReportError_def fresh_handles_def resize_def

lemma upt_2: "[0 ..< 2] = [0, Suc 0]" "[0 ..< 3] = [0, Suc 0, 2]" "[0 ..< 4] = [0, Suc 0, 2, 3]"
  by (simp_all add: upt_conv_Cons)

lemma replicate_2: "replicate 2 x = [x, x]"
  by (simp add: numeral_2_eq_2)

lemma CreateSyncObjects_state0: "CreateSyncObjects lazy sync_ok state0 = Inr state1"
  by (simp add: CreateSyncObjects_def state0_def state1_def sync_ok_def run_lazy upt_2 replicate_2)

lemma FindQueueFamilies_device_C:
  "FindQueueFamilies device_C = \<lparr>graphicsFamily = Some 2, presentFamily = Some 1\<rparr>"
  by (simp add: FindQueueFamilies_def device_C_def supportsPresent_def supportsGraphics_def
        VK_QUEUE_GRAPHICS_BIT_def IsComplete_def)

lemma device_C_fields:
  "surfaceFormats device_C = [\<lparr>format = 50, colorSpace = 0\<rparr>]"
  "surfacePresentModes device_C = [VK_PRESENT_MODE_FIFO_KHR]"
  by (simp_all add: device_C_def)

lemmas run_rebuild =
  RecreateSwapChain_def RebuildSwapChain_def CleanupSwapChain_def CreateSwapChain_def
  CreateImageViews_def CreateRenderPass_def CreateGraphicsPipeline_def CreateFramebuffers_def
  CreateCommandBuffers_def ChooseSwapSurfaceFormat_def VK_FORMAT_B8G8R8A8_SRGB_def
  VK_COLOR_SPACE_SRGB_NONLINEAR_KHR_def ChooseSwapExtent_def example_capabilities_def
  UINT32_MAX_def FindQueueFamilies_device_C device_C_fields

lemmas examples =
  state1_def state0_def state_min_def rebuild_ok_def rebuild_wait_def rebuild4_def frame_ok_def
  frame_stale_def frame_suboptimal_def frame_lost_def rebuild_trace_def teardown_trace_def
  construction_trace_def example_info_def

lemma run_RecreateSwapChain:
  "new_events state1 (RecreateSwapChain lazy rebuild_ok state1)
     = Enter_RecreateSwapChain # glfwGetFramebufferSize 800 600 # rebuild_trace"
  "\<not> isl (RecreateSwapChain lazy rebuild_ok state1)"
  by (simp_all add: run_rebuild examples run_lazy upt_2)

lemma run_RecreateSwapChain_min:
  "new_events state_min (RecreateSwapChain lazy rebuild_wait state_min)
     = [Enter_RecreateSwapChain, glfwGetFramebufferSize 0 0,
        glfwGetFramebufferSize 0 0, glfwWaitEvents, glfwGetFramebufferSize 0 0,
        glfwWaitEvents, glfwGetFramebufferSize 640 480, glfwWaitEvents] @ rebuild_trace"
  "new_events state_min (RecreateSwapChain lazy rebuild_ok state_min)
     = [Enter_RecreateSwapChain, glfwGetFramebufferSize 0 0,
        glfwGetFramebufferSize 0 0, glfwWaitEvents]"
  by (simp_all add: run_rebuild examples run_lazy upt_2)

lemma run_DrawFrame:
  "new_events state1 (DrawFrame lazy (frame_ok 0) state1)
     = [vkWaitForFences 0, vkAcquireNextImageKHR (Some 1) 14, vkResetFences 0,
        vkQueueSubmit 11 0, vkWaitForFences 0, vkQueuePresentKHR (Some 1) 0, vkQueueWaitIdle]"
  "new_events state1 (DrawFrame lazy frame_lost state1)
     = [vkWaitForFences 0, vkAcquireNextImageKHR (Some 1) 14, vkResetFences 0,
        vkQueueSubmit 11 0, vkWaitForFences 0, vkQueuePresentKHR (Some 1) 0]"
  by (simp_all add: DrawFrame_def examples run_lazy)

lemma run_DrawFrame_rebuild:
  "new_events state1 (DrawFrame lazy frame_stale state1)
     = [vkWaitForFences 0, vkAcquireNextImageKHR (Some 1) 14,
        Enter_RecreateSwapChain, glfwGetFramebufferSize 800 600] @ rebuild_trace"
  "new_events state1 (DrawFrame lazy frame_suboptimal state1)
     = [vkWaitForFences 0, vkAcquireNextImageKHR (Some 1) 14, vkResetFences 0,
        vkQueueSubmit 11 0, vkWaitForFences 0]
       @ vkQueuePresentKHR (Some 1) 0 # Enter_RecreateSwapChain
       # (glfwGetFramebufferSize 800 600 # rebuild_trace @ [vkQueueWaitIdle])"
  by (simp_all add: DrawFrame_def run_rebuild examples run_lazy upt_2)

lemma run_state2:
  "\<not> isl (RecreateSwapChain lazy rebuild4 state1)"
  "new_events state2 (DrawFrame lazy (frame_ok 3) state2)
     = [vkWaitForFences 0, vkAcquireNextImageKHR (Some 18) 14]"
  by (simp_all add: state2_def DrawFrame_def run_rebuild examples run_lazy upt_2)

lemma run_DrawFrame_resized:
  "m_framebufferResized state_resized"
  "new_events state_resized (DrawFrame lazy frame_lost state_resized)
     = [vkWaitForFences 0, vkAcquireNextImageKHR (Some 1) 14, vkResetFences 0,
        vkQueueSubmit 11 0, vkWaitForFences 0]
       @ vkQueuePresentKHR (Some 1) 0 # Enter_RecreateSwapChain
       # (glfwGetFramebufferSize 1024 768 # rebuild_trace @ [vkQueueWaitIdle])"
  "\<not> isl (DrawFrame lazy frame_lost state_resized)"
  "m_currentFrame (final (DrawFrame lazy frame_lost state_resized)) = 1"
  "m_currentFrame state_resized = 0"
  by (simp_all add: state_resized_def poll_events_def DrawFrame_def run_rebuild examples
        run_lazy upt_2)

lemma not_isl_final: "\<not> isl r \<Longrightarrow> r = Inr (final r)"
  by (cases r) simp_all

subsection \<open>Frames in flight\<close>



subsection \<open>Out-of-date acquisition\<close>

text \<open>
  C2. In an iteration of \<^verbatim>\<open>DrawFrame\<close> that reaches \<^verbatim>\<open>vkAcquireNextImageKHR\<close> and is
  answered \<^verbatim>\<open>VK_ERROR_OUT_OF_DATE_KHR\<close>, \<^verbatim>\<open>RecreateSwapChain\<close> is entered exactly once,
  neither \<^verbatim>\<open>vkQueueSubmit\<close> nor \<^verbatim>\<open>vkQueuePresentKHR\<close> is called, and
  \<open>m_currentFrame\<close> ends as it began.
\<close>

theorem acquire_out_of_date_rebuilds_once:
  fixes sched a s
  defines "r \<equiv> DrawFrame sched a s"
  assumes ood: "acquireResult a = VK_ERROR_OUT_OF_DATE_KHR"
    and reached: "\<exists>e \<in> set (new_events s r). is_acquire e"
  shows "count_list (new_events s r) Enter_RecreateSwapChain = 1
         \<and> (\<forall>e \<in> set (new_events s r). \<not> is_submit e \<and> \<not> is_present e)
         \<and> m_currentFrame (final r) = m_currentFrame s"
proof (cases rule: DrawFrame_cases[of sched a s])
  case before_acquire
  with reached show ?thesis unfolding r_def by (auto simp: is_acquire_def)
next
  case (stale f sem s2)
  let ?rc = "new_events s2 (RecreateSwapChain sched (rebuild a) s2)"
  note rc = RecreateSwapChain_new_events[where s = s2 and sched = sched and a = "rebuild a"]
  from RecreateSwapChain_once[where s = s2 and sched = sched and a = "rebuild a"]
  obtain rest where rest: "?rc = Enter_RecreateSwapChain # rest"
    "Enter_RecreateSwapChain \<notin> set rest" by blast
  have ev: "new_events s r
              = [vkWaitForFences f, vkAcquireNextImageKHR (m_currentSwapChain s) sem] @ ?rc"
    unfolding r_def stale(5) by (rule new_events_eq) (simp add: rc(1) stale(4))
  have 1: "count_list (new_events s r) Enter_RecreateSwapChain = 1"
    unfolding ev rest(1) using rest(2) by (simp add: count_list_0_iff)
  have 2: "\<forall>e \<in> set (new_events s r). \<not> is_submit e \<and> \<not> is_present e"
    unfolding ev using rc(2) recreate_event_classes
    by (auto simp: is_submit_def is_present_def)
  have 3: "m_currentFrame (final r) = m_currentFrame s"
    using rc(3) same_host(16)[OF stale(3)] by (simp add: r_def stale(5))
  from 1 2 3 show ?thesis by simp
next
  case acquire_failed
  with ood show ?thesis by simp
next
  case tracker_out_of_range
  with ood show ?thesis by (simp add: acquire_ok_def)
next
  case before_present
  with ood show ?thesis by (simp add: acquire_ok_def)
next
  case presented
  with ood show ?thesis by (simp add: acquire_ok_def)
qed

theorem acquire_out_of_date_rebuilds_once_witness:
  "acquireResult frame_stale = VK_ERROR_OUT_OF_DATE_KHR
   \<and> (\<exists>e \<in> set (new_events state1 (DrawFrame lazy frame_stale state1)). is_acquire e)
   \<and> new_events state1 (DrawFrame lazy frame_stale state1)
       = [vkWaitForFences 0, vkAcquireNextImageKHR (Some 1) 14,
          Enter_RecreateSwapChain, glfwGetFramebufferSize 800 600] @ rebuild_trace
   \<and> count_list (new_events state1 (DrawFrame lazy frame_stale state1)) Enter_RecreateSwapChain = 1
   \<and> list_all (\<lambda>e. \<not> is_submit e \<and> \<not> is_present e)
        (new_events state1 (DrawFrame lazy frame_stale state1))
   \<and> m_currentFrame (final (DrawFrame lazy frame_stale state1)) = m_currentFrame state1"
proof -
  have ood: "acquireResult frame_stale = VK_ERROR_OUT_OF_DATE_KHR"
    by (simp add: frame_stale_def)
  have reached: "\<exists>e \<in> set (new_events state1 (DrawFrame lazy frame_stale state1)). is_acquire e"
    unfolding run_DrawFrame_rebuild(1) by (simp add: is_acquire_def)
  from acquire_out_of_date_rebuilds_once[OF ood reached] ood reached run_DrawFrame_rebuild(1)
  show ?thesis by (intro conjI) (simp_all add: list_all_iff)
qed

subsection \<open>Destruction of the previous chain\<close>

text \<open>
  C4, as the specification states it, fails: in a rebuild of the example that succeeds,
  call 14 of \<^verbatim>\<open>RecreateSwapChain\<close> (counted from 0) destroys the previous chain, handle
  1, and is the last call that destroys a swap chain; the first call that creates one is
  call 16.
\<close>

theorem swapchain_destroyed_after_creation_counterexample:
  "m_currentSwapChain state1 = Some 1
   \<and> \<not> isl (RecreateSwapChain lazy rebuild_ok state1)
   \<and> new_events state1 (RecreateSwapChain lazy rebuild_ok state1)
       = Enter_RecreateSwapChain # glfwGetFramebufferSize 800 600 # vkDeviceWaitIdle
         # teardown_trace
         @ QuerySwapChainSupport # vkCreateSwapchainKHR example_info # construction_trace
   \<and> new_events state1 (RecreateSwapChain lazy rebuild_ok state1) ! 14
       = vkDestroySwapchainKHR (Some 1)
   \<and> last_index is_swapchain_destruction
        (new_events state1 (RecreateSwapChain lazy rebuild_ok state1)) = Some 14
   \<and> first_index is_swapchain_creation
        (new_events state1 (RecreateSwapChain lazy rebuild_ok state1)) = Some 16"
proof -
  have 1: "m_currentSwapChain state1 = Some 1" by (simp add: state1_def state0_def)
  have 2: "new_events state1 (RecreateSwapChain lazy rebuild_ok state1)
       = Enter_RecreateSwapChain # glfwGetFramebufferSize 800 600 # vkDeviceWaitIdle
         # teardown_trace
         @ QuerySwapChainSupport # vkCreateSwapchainKHR example_info # construction_trace"
    by (simp add: run_RecreateSwapChain(1) rebuild_trace_def)
  have 3: "new_events state1 (RecreateSwapChain lazy rebuild_ok state1) ! 14
       = vkDestroySwapchainKHR (Some 1)"
    unfolding 2 by (simp add: teardown_trace_def)
  have 4: "last_index is_swapchain_destruction
        (new_events state1 (RecreateSwapChain lazy rebuild_ok state1)) = Some 14"
    unfolding 2
    by (simp add: teardown_trace_def construction_trace_def is_swapchain_destruction_def)
  have 5: "first_index is_swapchain_creation
        (new_events state1 (RecreateSwapChain lazy rebuild_ok state1)) = Some 16"
    unfolding 2 by (simp add: teardown_trace_def is_swapchain_creation_def)
  from 1 2 3 4 5 run_RecreateSwapChain(2) show ?thesis by simp
qed

text \<open>
  C4, amended. In every \<^verbatim>\<open>RecreateSwapChain\<close>, wherever a call of
  \<^verbatim>\<open>vkCreateSwapchainKHR\<close> stands in the log, what precedes it is: the entry and polling
  calls, among them no destruction of a swap chain, then \<^verbatim>\<open>vkDeviceWaitIdle\<close>, and
  after that wait the destructions of \<open>m_currentSwapChain\<close> and of \<open>m_oldSwapChain\<close>. No
  swap chain is destroyed after the creation, and its \<^verbatim>\<open>oldSwapchain\<close> is
  \<open>m_oldSwapChain\<close>, a member the rebuild leaves as it was. A rebuild that returns
  normally has created a chain.
\<close>

theorem previous_swapchain_destroyed_before_creation:
  fixes sched a s
  defines "r \<equiv> RecreateSwapChain sched a s"
  shows "(new_events s r = pre @ vkCreateSwapchainKHR info # post
          \<longrightarrow> (\<exists>before after.
                 pre = before @ vkDeviceWaitIdle # after
                 \<and> (\<forall>e \<in> set before. e = Enter_RecreateSwapChain \<or> is_poll e)
                 \<and> (\<forall>c. vkDestroySwapchainKHR c \<notin> set before)
                 \<and> vkDestroySwapchainKHR (m_currentSwapChain s) \<in> set after
                 \<and> vkDestroySwapchainKHR (m_oldSwapChain s) \<in> set after)
              \<and> vkDestroySwapchainKHR (m_currentSwapChain s) \<in> set pre
              \<and> vkDestroySwapchainKHR (m_oldSwapChain s) \<in> set pre
              \<and> (\<forall>c. vkDestroySwapchainKHR c \<notin> set post)
              \<and> ci_oldSwapchain info = m_oldSwapChain s)
       \<and> (\<not> isl r \<longrightarrow> (\<exists>info. vkCreateSwapchainKHR info \<in> set (new_events s r)))
       \<and> m_oldSwapChain (final r) = m_oldSwapChain s"
proof -
  obtain polls rb where
    ev: "new_events s r = (Enter_RecreateSwapChain # polls) @ rb"
    and polls: "\<forall>e \<in> set polls. is_poll e"
    and rb: "(rb = [] \<and> (\<exists>y. r = Inl (BlocksForever, y)))
     \<or> ((\<exists>w h. w \<noteq> 0 \<and> h \<noteq> 0 \<and> glfwGetFramebufferSize w h \<in> set polls)
        \<and> (\<exists>cr. rb = (vkDeviceWaitIdle # cleanup_events s) @ cr
              \<and> (\<forall>e \<in> set cr. creation_event (m_oldSwapChain s) e)
              \<and> (\<not> isl r \<longrightarrow> (\<exists>info. vkCreateSwapchainKHR info \<in> set cr))))"
    unfolding r_def by (rule RecreateSwapChain_split)
  have 1: "(\<exists>before after.
                 pre = before @ vkDeviceWaitIdle # after
                 \<and> (\<forall>e \<in> set before. e = Enter_RecreateSwapChain \<or> is_poll e)
                 \<and> (\<forall>c. vkDestroySwapchainKHR c \<notin> set before)
                 \<and> vkDestroySwapchainKHR (m_currentSwapChain s) \<in> set after
                 \<and> vkDestroySwapchainKHR (m_oldSwapChain s) \<in> set after)
              \<and> vkDestroySwapchainKHR (m_currentSwapChain s) \<in> set pre
              \<and> vkDestroySwapchainKHR (m_oldSwapChain s) \<in> set pre
              \<and> (\<forall>c. vkDestroySwapchainKHR c \<notin> set post)
              \<and> ci_oldSwapchain info = m_oldSwapChain s"
    if split: "new_events s r = pre @ vkCreateSwapchainKHR info # post"
  proof -
    let ?create = "vkCreateSwapchainKHR info"
    have "?create \<notin> set (Enter_RecreateSwapChain # polls)"
      using polls by (auto simp: is_poll_def)
    from split_after_prefix[OF split[unfolded ev, symmetric, THEN sym] this]
    obtain p1 where p1: "pre = (Enter_RecreateSwapChain # polls) @ p1" "rb = p1 @ ?create # post"
      by blast
    from p1(2) rb obtain cr where cr: "rb = (vkDeviceWaitIdle # cleanup_events s) @ cr"
      "\<forall>e \<in> set cr. creation_event (m_oldSwapChain s) e" by auto
    have "?create \<notin> set (vkDeviceWaitIdle # cleanup_events s)"
      using cleanup_events_teardown[of s] by (auto simp: is_teardown_def)
    from split_after_prefix[OF cr(1)[unfolded p1(2), symmetric] this]
    obtain p2 where p2: "p1 = (vkDeviceWaitIdle # cleanup_events s) @ p2" "cr = p2 @ ?create # post"
      by blast
    have d: "vkDestroySwapchainKHR (m_currentSwapChain s) \<in> set (cleanup_events s)"
      "vkDestroySwapchainKHR (m_oldSwapChain s) \<in> set (cleanup_events s)"
      by (simp_all add: cleanup_events_def)
    let ?before = "Enter_RecreateSwapChain # polls" and ?after = "cleanup_events s @ p2"
    have shape: "pre = ?before @ vkDeviceWaitIdle # ?after"
      unfolding p1(1) p2(1) by simp
    have quiet: "\<forall>e \<in> set ?before. e = Enter_RecreateSwapChain \<or> is_poll e"
      using polls by simp
    have none: "\<forall>c. vkDestroySwapchainKHR c \<notin> set ?before"
      using polls by (auto simp: is_poll_def)
    have "vkDestroySwapchainKHR (m_currentSwapChain s) \<in> set ?after"
      "vkDestroySwapchainKHR (m_oldSwapChain s) \<in> set ?after"
      using d by simp_all
    with shape quiet none have "\<exists>before after.
                 pre = before @ vkDeviceWaitIdle # after
                 \<and> (\<forall>e \<in> set before. e = Enter_RecreateSwapChain \<or> is_poll e)
                 \<and> (\<forall>c. vkDestroySwapchainKHR c \<notin> set before)
                 \<and> vkDestroySwapchainKHR (m_currentSwapChain s) \<in> set after
                 \<and> vkDestroySwapchainKHR (m_oldSwapChain s) \<in> set after"
      by blast
    moreover have "vkDestroySwapchainKHR (m_currentSwapChain s) \<in> set pre"
      "vkDestroySwapchainKHR (m_oldSwapChain s) \<in> set pre"
      unfolding p1(1) p2(1) using d by simp_all
    moreover have "\<forall>c. vkDestroySwapchainKHR c \<notin> set post"
      using cr(2) p2(2) creation_event_classes(1) by fastforce
    moreover have "ci_oldSwapchain info = m_oldSwapChain s"
      using cr(2) p2(2) creation_event_classes(2) by simp
    ultimately show ?thesis by simp
  qed
  have 2: "\<not> isl r \<longrightarrow> (\<exists>info. vkCreateSwapchainKHR info \<in> set (new_events s r))"
    using rb ev by auto
  have 3: "m_oldSwapChain (final r) = m_oldSwapChain s"
    unfolding r_def by (rule RecreateSwapChain_new_events(5))
  from 1 2 3 show ?thesis by blast
qed

theorem previous_swapchain_destroyed_before_creation_witness:
  "new_events state1 (RecreateSwapChain lazy rebuild_ok state1)
     = (Enter_RecreateSwapChain # glfwGetFramebufferSize 800 600 # vkDeviceWaitIdle
        # teardown_trace @ [QuerySwapChainSupport])
       @ vkCreateSwapchainKHR example_info # construction_trace
   \<and> (\<exists>before after.
         Enter_RecreateSwapChain # glfwGetFramebufferSize 800 600 # vkDeviceWaitIdle
           # teardown_trace @ [QuerySwapChainSupport]
         = before @ vkDeviceWaitIdle # after
         \<and> (\<forall>e \<in> set before. e = Enter_RecreateSwapChain \<or> is_poll e)
         \<and> (\<forall>c. vkDestroySwapchainKHR c \<notin> set before)
         \<and> vkDestroySwapchainKHR (m_currentSwapChain state1) \<in> set after
         \<and> vkDestroySwapchainKHR (m_oldSwapChain state1) \<in> set after)
   \<and> vkDestroySwapchainKHR (m_currentSwapChain state1)
       \<in> set (Enter_RecreateSwapChain # glfwGetFramebufferSize 800 600 # vkDeviceWaitIdle
               # teardown_trace @ [QuerySwapChainSupport])
   \<and> vkDestroySwapchainKHR (m_oldSwapChain state1)
       \<in> set (Enter_RecreateSwapChain # glfwGetFramebufferSize 800 600 # vkDeviceWaitIdle
               # teardown_trace @ [QuerySwapChainSupport])
   \<and> (\<forall>c. vkDestroySwapchainKHR c \<notin> set construction_trace)
   \<and> ci_oldSwapchain example_info = m_oldSwapChain state1
   \<and> \<not> isl (RecreateSwapChain lazy rebuild_ok state1)
   \<and> (\<exists>info. vkCreateSwapchainKHR info
               \<in> set (new_events state1 (RecreateSwapChain lazy rebuild_ok state1)))
   \<and> m_oldSwapChain (final (RecreateSwapChain lazy rebuild_ok state1)) = m_oldSwapChain state1"
proof -
  have ev: "new_events state1 (RecreateSwapChain lazy rebuild_ok state1)
     = (Enter_RecreateSwapChain # glfwGetFramebufferSize 800 600 # vkDeviceWaitIdle
        # teardown_trace @ [QuerySwapChainSupport])
       @ vkCreateSwapchainKHR example_info # construction_trace"
    by (simp add: run_RecreateSwapChain(1) rebuild_trace_def)
  from previous_swapchain_destroyed_before_creation
         [where sched = lazy and a = rebuild_ok and s = state1
            and pre = "Enter_RecreateSwapChain # glfwGetFramebufferSize 800 600 # vkDeviceWaitIdle
                        # teardown_trace @ [QuerySwapChainSupport]"
            and info = example_info and post = construction_trace]
       ev run_RecreateSwapChain(2)
  show ?thesis by (intro conjI) simp_all
qed

subsection \<open>The presentation step\<close>

text \<open>
  C7, as the specification states it, fails: not every present result other than
  out-of-date, suboptimal and success is fatal. After a \<^verbatim>\<open>glfwPollEvents\<close> that ran the
  resize callback, an iteration whose presentation is answered
  \<^verbatim>\<open>VK_ERROR_DEVICE_LOST\<close> enters \<^verbatim>\<open>RecreateSwapChain\<close>, returns normally and moves
  on to the next frame slot.
\<close>

theorem present_failure_with_resize_flag_counterexample:
  "m_framebufferResized state_resized
   \<and> presentResult frame_lost = VK_ERROR_DEVICE_LOST
   \<and> new_events state_resized (DrawFrame lazy frame_lost state_resized)
       = [vkWaitForFences 0, vkAcquireNextImageKHR (Some 1) 14, vkResetFences 0,
          vkQueueSubmit 11 0, vkWaitForFences 0]
         @ vkQueuePresentKHR (Some 1) 0 # Enter_RecreateSwapChain
         # (glfwGetFramebufferSize 1024 768 # rebuild_trace @ [vkQueueWaitIdle])
   \<and> \<not> isl (DrawFrame lazy frame_lost state_resized)
   \<and> m_currentFrame state_resized = 0
   \<and> m_currentFrame (final (DrawFrame lazy frame_lost state_resized)) = 1"
proof -
  have "presentResult frame_lost = VK_ERROR_DEVICE_LOST"
    by (simp add: frame_lost_def frame_ok_def)
  with run_DrawFrame_resized show ?thesis by simp
qed

text \<open>
  C7, amended. In an iteration of \<^verbatim>\<open>DrawFrame\<close> that reaches \<^verbatim>\<open>vkQueuePresentKHR\<close>: if the
  result is out-of-date or suboptimal, or \<open>m_framebufferResized\<close> is set, the
  presentation is followed at once by the entry into
  \<^verbatim>\<open>RecreateSwapChain\<close>, the iteration presents once and rebuilds once, and at its end
  the flag is clear unless a \<^verbatim>\<open>glfwWaitEvents\<close> of the rebuild ran the resize callback
  again. With any other result but success, and the flag clear, the iteration ends with the
  runtime error of the presentation and without rebuild. With success and the flag clear
  it returns normally, without rebuild, the flag still clear.
\<close>

theorem present_step_handling:
  fixes sched a s
  defines "r \<equiv> DrawFrame sched a s"
  assumes reached: "\<exists>e \<in> set (new_events s r). is_present e"
  shows "(presentResult a = VK_ERROR_OUT_OF_DATE_KHR \<or> presentResult a = VK_SUBOPTIMAL_KHR
            \<or> m_framebufferResized s
          \<longrightarrow> (\<exists>pre post.
                 new_events s r
                   = pre @ vkQueuePresentKHR (m_currentSwapChain s) (acquiredImageIndex a)
                       # Enter_RecreateSwapChain # post
                 \<and> (\<forall>e \<in> set pre \<union> set post. \<not> is_present e \<and> e \<noteq> Enter_RecreateSwapChain))
              \<and> (m_framebufferResized (final r) \<longrightarrow> glfwWaitEvents \<in> set (new_events s r)))
       \<and> (presentResult a \<noteq> VK_ERROR_OUT_OF_DATE_KHR \<and> presentResult a \<noteq> VK_SUBOPTIMAL_KHR
            \<and> presentResult a \<noteq> VK_SUCCESS \<and> \<not> m_framebufferResized s
          \<longrightarrow> (\<exists>y. r = Inl (RuntimeError ''Failed to present swap chain image!'', y))
              \<and> Enter_RecreateSwapChain \<notin> set (new_events s r))
       \<and> (presentResult a = VK_SUCCESS \<and> \<not> m_framebufferResized s
          \<longrightarrow> \<not> isl r \<and> Enter_RecreateSwapChain \<notin> set (new_events s r)
              \<and> \<not> m_framebufferResized (final r))"
proof (cases rule: DrawFrame_cases[of sched a s])
  case before_acquire
  with reached show ?thesis unfolding r_def by (auto simp: is_present_def)
next
  case (stale f sem s2)
  from stale_events[where s = s and ?s2.0 = s2, OF stale(4) stale(5)] obtain rest where
    rest: "new_events s r = [vkWaitForFences f, vkAcquireNextImageKHR (m_currentSwapChain s) sem]
             @ Enter_RecreateSwapChain # rest"
    "\<forall>e \<in> set rest. recreate_event (m_oldSwapChain s2) e" unfolding r_def by blast
  have "\<forall>e \<in> set (new_events s r). \<not> is_present e"
    unfolding rest(1) using rest(2) recreate_event_classes by (auto simp: is_present_def)
  with reached show ?thesis by blast
next
  case acquire_failed
  with reached show ?thesis unfolding r_def by (auto simp: is_present_def)
next
  case tracker_out_of_range
  with reached show ?thesis unfolding r_def by (auto simp: is_present_def)
next
  case (before_present f sem ws tl)
  have "\<forall>e \<in> set tl. \<not> is_present e" using before_present(7) by (auto simp: is_present_def)
  then have "\<forall>e \<in> set (new_events s r). \<not> is_present e"
    unfolding r_def before_present(5) using fence_waits_classes[OF before_present(6)]
    by (auto simp: is_present_def)
  with reached show ?thesis by blast
next
  case (presented f sem ws cb s8)
  let ?present = "vkQueuePresentKHR (m_currentSwapChain s) (acquiredImageIndex a)"
  let ?pre = "vkWaitForFences f # vkAcquireNextImageKHR (m_currentSwapChain s) sem
                # ws @ [vkResetFences f, vkQueueSubmit cb f, vkWaitForFences f]"
  have pre: "\<forall>e \<in> set ?pre. \<not> is_present e \<and> e \<noteq> Enter_RecreateSwapChain"
    using fence_waits_classes[OF presented(4)] by (auto simp: is_present_def)
  have ev8: "events s8 = events s @ (?pre @ [?present])" using presented(5) by simp
  have r8: "r = present_tail sched a s8" using presented(8) by (simp add: r_def)
  note flag = presented(6)
  from ev8 r8 show ?thesis
  proof (cases rule: present_step_events)
    case (rebuild rest)
    let ?post = "rest @ (if isl r then [] else [vkQueueWaitIdle])"
    have ev: "new_events s r = ?pre @ ?present # Enter_RecreateSwapChain # ?post"
      using rebuild(2) by simp
    have post: "\<forall>e \<in> set ?post. \<not> is_present e \<and> e \<noteq> Enter_RecreateSwapChain"
      using rebuild(3,4) recreate_event_classes by (auto simp: is_present_def)
    have 1: "\<exists>pre post. new_events s r = pre @ ?present # Enter_RecreateSwapChain # post
                 \<and> (\<forall>e \<in> set pre \<union> set post. \<not> is_present e \<and> e \<noteq> Enter_RecreateSwapChain)"
      using ev pre post by blast
    have 2: "m_framebufferResized (final r) \<longrightarrow> glfwWaitEvents \<in> set (new_events s r)"
      using rebuild(5) ev by simp
    from rebuild(1) flag 1 2 show ?thesis by auto
  next
    case failed
    have "Enter_RecreateSwapChain \<notin> set (new_events s r)"
      unfolding failed(6) using pre by auto
    with failed(1-5) flag show ?thesis by simp
  next
    case ok
    have "Enter_RecreateSwapChain \<notin> set (new_events s r)"
      unfolding ok(4) using pre by auto
    with ok(1,2,3,5) flag show ?thesis by simp
  qed
qed

theorem present_step_handling_witness:
  "(\<exists>e \<in> set (new_events state1 (DrawFrame lazy frame_suboptimal state1)). is_present e)
   \<and> presentResult frame_suboptimal = VK_SUBOPTIMAL_KHR
   \<and> (\<exists>pre post.
         new_events state1 (DrawFrame lazy frame_suboptimal state1)
           = pre @ vkQueuePresentKHR (m_currentSwapChain state1) (acquiredImageIndex frame_suboptimal)
               # Enter_RecreateSwapChain # post
         \<and> (\<forall>e \<in> set pre \<union> set post. \<not> is_present e \<and> e \<noteq> Enter_RecreateSwapChain))
   \<and> glfwWaitEvents \<notin> set (new_events state1 (DrawFrame lazy frame_suboptimal state1))
   \<and> \<not> m_framebufferResized (final (DrawFrame lazy frame_suboptimal state1))
   \<and> (\<exists>e \<in> set (new_events state_resized (DrawFrame lazy frame_lost state_resized)).
         is_present e)
   \<and> m_framebufferResized state_resized
   \<and> (\<exists>pre post.
         new_events state_resized (DrawFrame lazy frame_lost state_resized)
           = pre @ vkQueuePresentKHR (m_currentSwapChain state_resized)
                     (acquiredImageIndex frame_lost)
               # Enter_RecreateSwapChain # post
         \<and> (\<forall>e \<in> set pre \<union> set post. \<not> is_present e \<and> e \<noteq> Enter_RecreateSwapChain))
   \<and> (\<exists>e \<in> set (new_events state1 (DrawFrame lazy frame_lost state1)). is_present e)
   \<and> presentResult frame_lost = VK_ERROR_DEVICE_LOST \<and> \<not> m_framebufferResized state1
   \<and> (\<exists>y. DrawFrame lazy frame_lost state1
             = Inl (RuntimeError ''Failed to present swap chain image!'', y))
   \<and> Enter_RecreateSwapChain \<notin> set (new_events state1 (DrawFrame lazy frame_lost state1))
   \<and> (\<exists>e \<in> set (new_events state1 (DrawFrame lazy (frame_ok 0) state1)). is_present e)
   \<and> presentResult (frame_ok 0) = VK_SUCCESS
   \<and> \<not> isl (DrawFrame lazy (frame_ok 0) state1)
   \<and> Enter_RecreateSwapChain \<notin> set (new_events state1 (DrawFrame lazy (frame_ok 0) state1))
   \<and> \<not> m_framebufferResized (final (DrawFrame lazy (frame_ok 0) state1))"
proof -
  have p: "presentResult frame_suboptimal = VK_SUBOPTIMAL_KHR"
    "presentResult frame_lost = VK_ERROR_DEVICE_LOST" "presentResult (frame_ok 0) = VK_SUCCESS"
    by (simp_all add: frame_suboptimal_def frame_lost_def frame_ok_def)
  have flag: "\<not> m_framebufferResized state1" by (simp add: state1_def state0_def)
  have r1: "\<exists>e \<in> set (new_events state1 (DrawFrame lazy frame_suboptimal state1)). is_present e"
    unfolding run_DrawFrame_rebuild(2) by (simp add: is_present_def)
  have r2: "\<exists>e \<in> set (new_events state1 (DrawFrame lazy frame_lost state1)). is_present e"
    unfolding run_DrawFrame(2) by (simp add: is_present_def)
  have r3: "\<exists>e \<in> set (new_events state1 (DrawFrame lazy (frame_ok 0) state1)). is_present e"
    unfolding run_DrawFrame(1) by (simp add: is_present_def)
  have quiet: "glfwWaitEvents \<notin> set (new_events state1 (DrawFrame lazy frame_suboptimal state1))"
    unfolding run_DrawFrame_rebuild(2)
    by (simp add: rebuild_trace_def teardown_trace_def construction_trace_def)
  have r4: "\<exists>e \<in> set (new_events state_resized (DrawFrame lazy frame_lost state_resized)).
              is_present e"
    unfolding run_DrawFrame_resized(2) by (simp add: is_present_def)
  from present_step_handling[OF r1] present_step_handling[OF r2] present_step_handling[OF r3]
       present_step_handling[OF r4] p flag r1 r2 r3 r4 quiet run_DrawFrame_resized(1)
  show ?thesis by (intro conjI) simp_all
qed

subsection \<open>The minimised window\<close>

text \<open>
  C8. In every \<^verbatim>\<open>RecreateSwapChain\<close>, before \<^verbatim>\<open>vkDeviceWaitIdle\<close> and before every call
  that tears down or constructs, \<^verbatim>\<open>glfwGetFramebufferSize\<close> has reported a size that is
  non-zero in both dimensions. If no report of the call is, then the function never
  returns (it waits in \<^verbatim>\<open>glfwWaitEvents\<close>) and has done nothing but poll the window.
\<close>

theorem no_rebuild_while_zero_area:
  fixes sched a s
  defines "r \<equiv> RecreateSwapChain sched a s"
  shows "(new_events s r = pre @ e # post
            \<and> (e = vkDeviceWaitIdle \<or> is_teardown e \<or> is_construction e)
          \<longrightarrow> (\<exists>w h. w \<noteq> 0 \<and> h \<noteq> 0 \<and> glfwGetFramebufferSize w h \<in> set pre))
       \<and> ((\<forall>w h. glfwGetFramebufferSize w h \<in> set (new_events s r) \<longrightarrow> w = 0 \<or> h = 0)
          \<longrightarrow> (\<exists>y. r = Inl (BlocksForever, y))
              \<and> (\<forall>e \<in> set (new_events s r). e = Enter_RecreateSwapChain \<or> is_poll e))"
proof -
  obtain polls rb where
    ev: "new_events s r = (Enter_RecreateSwapChain # polls) @ rb"
    and polls: "\<forall>e \<in> set polls. is_poll e"
    and rb: "(rb = [] \<and> (\<exists>y. r = Inl (BlocksForever, y)))
     \<or> ((\<exists>w h. w \<noteq> 0 \<and> h \<noteq> 0 \<and> glfwGetFramebufferSize w h \<in> set polls)
        \<and> (\<exists>cr. rb = (vkDeviceWaitIdle # cleanup_events s) @ cr
              \<and> (\<forall>e \<in> set cr. creation_event (m_oldSwapChain s) e)
              \<and> (\<not> isl r \<longrightarrow> (\<exists>info. vkCreateSwapchainKHR info \<in> set cr))))"
    unfolding r_def by (rule RecreateSwapChain_split)
  have 1: "\<exists>w h. w \<noteq> 0 \<and> h \<noteq> 0 \<and> glfwGetFramebufferSize w h \<in> set pre"
    if split: "new_events s r = pre @ e # post"
      and e: "e = vkDeviceWaitIdle \<or> is_teardown e \<or> is_construction e"
  proof -
    have "e \<noteq> Enter_RecreateSwapChain"
      using e by (auto simp: is_teardown_def is_construction_def)
    moreover have "e \<notin> set polls" using e polls poll_classes by blast
    ultimately have "e \<notin> set (Enter_RecreateSwapChain # polls)" by simp
    from split_after_prefix[OF split[unfolded ev, symmetric, THEN sym] this]
    obtain p1 where p1: "pre = (Enter_RecreateSwapChain # polls) @ p1" "rb = p1 @ e # post"
      by blast
    from p1(2) rb obtain w h where "w \<noteq> 0" "h \<noteq> 0" "glfwGetFramebufferSize w h \<in> set polls"
      by auto
    then show ?thesis unfolding p1(1) by auto
  qed
  have 2: "(\<exists>y. r = Inl (BlocksForever, y))
              \<and> (\<forall>e \<in> set (new_events s r). e = Enter_RecreateSwapChain \<or> is_poll e)"
    if zero: "\<forall>w h. glfwGetFramebufferSize w h \<in> set (new_events s r) \<longrightarrow> w = 0 \<or> h = 0"
  proof -
    have "\<not> (\<exists>w h. w \<noteq> 0 \<and> h \<noteq> 0 \<and> glfwGetFramebufferSize w h \<in> set polls)"
      using zero ev by auto
    with rb have "rb = []" "\<exists>y. r = Inl (BlocksForever, y)" by auto
    with ev polls show ?thesis by auto
  qed
  from 1 2 show ?thesis by blast
qed

theorem no_rebuild_while_zero_area_witness:
  "new_events state_min (RecreateSwapChain lazy rebuild_wait state_min)
     = [Enter_RecreateSwapChain, glfwGetFramebufferSize 0 0,
        glfwGetFramebufferSize 0 0, glfwWaitEvents, glfwGetFramebufferSize 0 0,
        glfwWaitEvents, glfwGetFramebufferSize 640 480, glfwWaitEvents]
       @ vkDeviceWaitIdle
       # (teardown_trace
          @ QuerySwapChainSupport # vkCreateSwapchainKHR example_info # construction_trace)
   \<and> (\<exists>w h. w \<noteq> 0 \<and> h \<noteq> 0
         \<and> glfwGetFramebufferSize w h
             \<in> set [Enter_RecreateSwapChain, glfwGetFramebufferSize 0 0,
                    glfwGetFramebufferSize 0 0, glfwWaitEvents, glfwGetFramebufferSize 0 0,
                    glfwWaitEvents, glfwGetFramebufferSize 640 480, glfwWaitEvents])
   \<and> new_events state_min (RecreateSwapChain lazy rebuild_ok state_min)
       = [Enter_RecreateSwapChain, glfwGetFramebufferSize 0 0,
          glfwGetFramebufferSize 0 0, glfwWaitEvents]
   \<and> (\<exists>y. RecreateSwapChain lazy rebuild_ok state_min = Inl (BlocksForever, y))
   \<and> list_all (\<lambda>e. e = Enter_RecreateSwapChain \<or> is_poll e)
        (new_events state_min (RecreateSwapChain lazy rebuild_ok state_min))"
proof -
  let ?pre = "[Enter_RecreateSwapChain, glfwGetFramebufferSize 0 0,
        glfwGetFramebufferSize 0 0, glfwWaitEvents, glfwGetFramebufferSize 0 0,
        glfwWaitEvents, glfwGetFramebufferSize 640 480, glfwWaitEvents]"
  let ?post = "teardown_trace
          @ QuerySwapChainSupport # vkCreateSwapchainKHR example_info # construction_trace"
  have ev: "new_events state_min (RecreateSwapChain lazy rebuild_wait state_min)
              = ?pre @ vkDeviceWaitIdle # ?post"
    by (simp add: run_RecreateSwapChain_min(1) rebuild_trace_def)
  have zero: "\<forall>w h. glfwGetFramebufferSize w h
               \<in> set (new_events state_min (RecreateSwapChain lazy rebuild_ok state_min))
             \<longrightarrow> w = 0 \<or> h = 0"
    unfolding run_RecreateSwapChain_min(2) by simp
  from no_rebuild_while_zero_area
         [where sched = lazy and a = rebuild_wait and s = state_min and pre = ?pre
            and e = vkDeviceWaitIdle and post = ?post]
       no_rebuild_while_zero_area
         [where sched = lazy and a = rebuild_ok and s = state_min and pre = ?pre
            and e = vkDeviceWaitIdle and post = ?post]
       ev zero run_RecreateSwapChain_min(2)
  show ?thesis by (intro conjI) (simp_all add: list_all_iff)
qed

subsection \<open>The tracker of images in flight\<close>

text \<open>
  C10. \<^verbatim>\<open>CreateSyncObjects\<close> leaves \<open>m_vImagesInFlight\<close> as long as
  \<open>m_vSwapChainImageViews\<close>. \<^verbatim>\<open>RecreateSwapChain\<close> leaves \<open>m_vImagesInFlight\<close> as it
  was, whereas after a rebuild that returns normally there are as many images and views as
  the new chain has. An iteration of \<^verbatim>\<open>DrawFrame\<close> whose acquisition succeeds (or is
  suboptimal) with an index at or beyond the length of \<open>m_vImagesInFlight\<close> ends in the
  access outside the vector.
\<close>

theorem images_in_flight_never_resized:
  "(CreateSyncObjects sched results s0 = Inr s1
      \<longrightarrow> length (m_vImagesInFlight s1) = length (m_vSwapChainImageViews s1))
   \<and> m_vImagesInFlight (final (RecreateSwapChain sched ra s)) = m_vImagesInFlight s
   \<and> (RecreateSwapChain sched ra s = Inr s'
      \<longrightarrow> length (m_vSwapChainImages s') = swapchainImageCount ra
          \<and> length (m_vSwapChainImageViews s') = swapchainImageCount ra)
   \<and> (acquire_ok a \<and> (\<exists>e \<in> set (new_events s (DrawFrame sched a s)). is_acquire e)
        \<and> length (m_vImagesInFlight s) \<le> acquiredImageIndex a
      \<longrightarrow> (\<exists>y. DrawFrame sched a s = Inl (OutOfRange, y)))"
proof (intro conjI impI)
  assume "CreateSyncObjects sched results s0 = Inr s1"
  then show "length (m_vImagesInFlight s1) = length (m_vSwapChainImageViews s1)"
    by (rule CreateSyncObjects_Inr(2))
next
  show "m_vImagesInFlight (final (RecreateSwapChain sched ra s)) = m_vImagesInFlight s"
    by (rule RecreateSwapChain_new_events(4))
next
  assume r: "RecreateSwapChain sched ra s = Inr s'"
  show "length (m_vSwapChainImages s') = swapchainImageCount ra"
    by (rule RecreateSwapChain_Inr(1)[OF r])
  show "length (m_vSwapChainImageViews s') = swapchainImageCount ra"
    by (rule RecreateSwapChain_Inr(2)[OF r])
next
  assume h: "acquire_ok a \<and> (\<exists>e \<in> set (new_events s (DrawFrame sched a s)). is_acquire e)
        \<and> length (m_vImagesInFlight s) \<le> acquiredImageIndex a"
  show "\<exists>y. DrawFrame sched a s = Inl (OutOfRange, y)"
  proof (cases rule: DrawFrame_cases[of sched a s])
    case before_acquire
    with h show ?thesis by (auto simp: is_acquire_def)
  next
    case stale
    with h show ?thesis by (simp add: acquire_ok_def)
  next
    case acquire_failed
    with h show ?thesis by simp
  next
    case tracker_out_of_range
    then show ?thesis by simp
  next
    case before_present
    with h show ?thesis by simp
  next
    case presented
    with h show ?thesis by simp
  qed
qed

theorem images_in_flight_never_resized_witness:
  "CreateSyncObjects lazy sync_ok state0 = Inr state1
   \<and> length (m_vImagesInFlight state1) = length (m_vSwapChainImageViews state1)
   \<and> RecreateSwapChain lazy rebuild4 state1 = Inr state2
   \<and> m_vImagesInFlight state2 = m_vImagesInFlight state1
   \<and> length (m_vImagesInFlight state1) = 3
   \<and> length (m_vSwapChainImages state2) = 4
   \<and> acquire_ok (frame_ok 3) \<and> acquiredImageIndex (frame_ok 3) = 3
   \<and> (\<exists>e \<in> set (new_events state2 (DrawFrame lazy (frame_ok 3) state2)). is_acquire e)
   \<and> (\<exists>y. DrawFrame lazy (frame_ok 3) state2 = Inl (OutOfRange, y))"
proof -
  have rec: "RecreateSwapChain lazy rebuild4 state1 = Inr state2"
    unfolding state2_def by (rule not_isl_final) (rule run_state2(1))
  have a: "acquire_ok (frame_ok 3)" "acquiredImageIndex (frame_ok 3) = 3"
    "swapchainImageCount rebuild4 = 4"
    by (simp_all add: acquire_ok_def frame_ok_def rebuild4_def rebuild_ok_def)
  have len: "length (m_vImagesInFlight state1) = 3" by (simp add: state1_def state0_def)
  have reached: "\<exists>e \<in> set (new_events state2 (DrawFrame lazy (frame_ok 3) state2)). is_acquire e"
    unfolding run_state2(2) by (simp add: is_acquire_def)
  have same: "m_vImagesInFlight state2 = m_vImagesInFlight state1"
    using images_in_flight_never_resized
            [where sched = lazy and results = sync_ok and ?s0.0 = state0 and ?s1.0 = state1
               and ra = rebuild4 and s = state1 and s' = state2 and a = "frame_ok 3"]
    by (simp add: state2_def)
  from images_in_flight_never_resized
         [where sched = lazy and results = sync_ok and ?s0.0 = state0 and ?s1.0 = state1
            and ra = rebuild4 and s = state2 and s' = state2 and a = "frame_ok 3"]
       images_in_flight_never_resized
         [where sched = lazy and results = sync_ok and ?s0.0 = state0 and ?s1.0 = state1
            and ra = rebuild4 and s = state1 and s' = state2 and a = "frame_ok 3"]
       CreateSyncObjects_state0 rec a len reached same
  show ?thesis by (intro conjI) simp_all
qed

end
